theory Spec2Isabelle
  imports Main
begin

section \<open>The chess-board graph of \<^verbatim>\<open>src/graph.js\<close>\<close>

subsection \<open>Vertices and the mutable fields of the graph\<close>

text \<open>
  A \<^verbatim>\<open>GraphVertex\<close> object is referred to by its two immutable fields \<^verbatim>\<open>row\<close> and
  \<^verbatim>\<open>column\<close>: \<^verbatim>\<open>#createVertices\<close> makes exactly one object per coordinate pair of the
  board, so for the board's vertices the object identity tested by \<^verbatim>\<open>!==\<close> in
  \<^verbatim>\<open>#reconstructPath\<close> and the coordinate comparison made everywhere else coincide.
  A value whose coordinates are off the board stands for a vertex object made by the
  caller. The two mutable fields, \<^verbatim>\<open>edges\<close> and \<^verbatim>\<open>previous\<close>, live in the state of the
  graph, one entry per vertex; \<^verbatim>\<open>previous = null\<close> is \<open>None\<close>.
\<close>

datatype GraphVertex = GraphVertex (row: int) (column: int)

record Graph =
  edges :: "GraphVertex \<Rightarrow> GraphVertex list"
  previous :: "GraphVertex \<Rightarrow> GraphVertex option"

definition boardSize :: int where
  "boardSize = 8"

text \<open>\<^verbatim>\<open>this.board[row][column]\<close>, read only at indices inside the board.\<close>

definition board :: "int \<Rightarrow> int \<Rightarrow> GraphVertex" where
  "board r c = GraphVertex r c"

text \<open>The state after \<^verbatim>\<open>#createVertices\<close>: every vertex has no edge and no predecessor.\<close>

definition createVertices :: Graph where
  "createVertices = \<lparr>edges = (\<lambda>v. []), previous = (\<lambda>v. None)\<rparr>"

definition createEdge :: "Graph \<Rightarrow> GraphVertex \<Rightarrow> GraphVertex \<Rightarrow> Graph" where
  "createEdge g vertex1 vertex2 =
     (let g1 = g\<lparr>edges := (edges g)(vertex1 := edges g vertex1 @ [vertex2])\<rparr>
      in g1\<lparr>edges := (edges g1)(vertex2 := edges g1 vertex2 @ [vertex1])\<rparr>)"

definition edgeExists :: "Graph \<Rightarrow> GraphVertex \<Rightarrow> GraphVertex \<Rightarrow> bool" where
  "edgeExists g vertex1 vertex2 =
     (let row1 = row vertex1; column1 = column vertex1
      in list_ex (\<lambda>connectedVertex. row connectedVertex = row1 \<and> column connectedVertex = column1)
           (edges g vertex2))"

definition findAdjacents :: "GraphVertex \<Rightarrow> GraphVertex list" where
  "findAdjacents vertex =
     (let movePatterns =
            [(row vertex - 2, column vertex + 1),
             (row vertex - 1, column vertex + 2),
             (row vertex + 1, column vertex + 2),
             (row vertex + 2, column vertex + 1),
             (row vertex + 2, column vertex - 1),
             (row vertex + 1, column vertex - 2),
             (row vertex - 1, column vertex - 2),
             (row vertex - 2, column vertex - 1)];
          possibleMoves =
            filter (\<lambda>(r, c). r \<ge> 0 \<and> r < boardSize \<and> c \<ge> 0 \<and> c < boardSize) movePatterns;
          possibleAdjacents = map (\<lambda>(r, c). board r c) possibleMoves
      in possibleAdjacents)"

definition connectAdjacents :: "Graph \<Rightarrow> GraphVertex \<Rightarrow> Graph" where
  "connectAdjacents g vertex =
     fold (\<lambda>adjacent g'. if \<not> edgeExists g' vertex adjacent
                          then createEdge g' vertex adjacent else g')
          (findAdjacents vertex) g"

definition connectAllAdjacents :: "Graph \<Rightarrow> Graph" where
  "connectAllAdjacents g =
     fold (\<lambda>r g'. fold (\<lambda>c g''. connectAdjacents g'' (board r c)) [0 .. boardSize - 1] g')
          [0 .. boardSize - 1] g"

text \<open>The constructor of \<^verbatim>\<open>Graph\<close>.\<close>

definition newGraph :: Graph where
  "newGraph = connectAllAdjacents createVertices"

text \<open>The pair \<^verbatim>\<open>[vertex.row, vertex.column]\<close>.\<close>

abbreviation coords :: "GraphVertex \<Rightarrow> int \<times> int" where
  "coords v \<equiv> (row v, column v)"

subsection \<open>Path reconstruction\<close>

datatype error = TypeError

definition isVertexInArray :: "GraphVertex \<Rightarrow> GraphVertex list \<Rightarrow> bool" where
  "isVertexInArray vertex array =
     list_ex (\<lambda>element. row vertex = row element \<and> column vertex = column element) array"

text \<open>
  The \<^verbatim>\<open>while (vertex !== initialVertex)\<close> loop of \<^verbatim>\<open>#reconstructPath\<close>. The variable
  \<^verbatim>\<open>vertex\<close> may become \<^verbatim>\<open>null\<close>; reading \<^verbatim>\<open>vertex.row\<close> then throws a TypeError. The loop
  need not end when the \<^verbatim>\<open>previous\<close> links form a cycle: not returning is \<open>None\<close>.
\<close>

partial_function (option) reconstructLoop ::
  "(GraphVertex \<Rightarrow> GraphVertex option) \<Rightarrow> GraphVertex option \<Rightarrow> GraphVertex
     \<Rightarrow> (int \<times> int) list \<Rightarrow> (error + (int \<times> int) list) option" where
  "reconstructLoop prev vertex initialVertex path =
     (case vertex of
        None \<Rightarrow> Some (Inl TypeError)
      | Some v \<Rightarrow>
          if v \<noteq> initialVertex
          then reconstructLoop prev (prev v) initialVertex (path @ [(row v, column v)])
          else Some (Inr path))"

text \<open>
  What a call of a search method does: \<open>None\<close> when it does not return,
  \<open>Some (Inl e)\<close> when it throws, \<open>Some (Inr None)\<close> when it returns \<^verbatim>\<open>null\<close> and
  \<open>Some (Inr (Some p))\<close> when it returns the array \<open>p\<close> of \<^verbatim>\<open>[row, column]\<close> pairs.
\<close>

type_synonym outcome = "(error + (int \<times> int) list option) option"

definition reconstructPath :: "Graph \<Rightarrow> GraphVertex \<Rightarrow> GraphVertex \<Rightarrow> outcome" where
  "reconstructPath g vertex initialVertex =
     (case reconstructLoop (previous g) (Some vertex) initialVertex [] of
        None \<Rightarrow> None
      | Some (Inl e) \<Rightarrow> Some (Inl e)
      | Some (Inr path) \<Rightarrow>
          Some (Inr (Some (rev (path @ [(row initialVertex, column initialVertex)])))))"

subsection \<open>The two searches\<close>

text \<open>
  The \<^verbatim>\<open>adjacents.forEach\<close> of both searches, which differ only in the name of the
  frontier array (\<^verbatim>\<open>stack\<close>, \<^verbatim>\<open>queue\<close>): it updates the \<^verbatim>\<open>previous\<close> fields and the frontier.
\<close>

fun pushAdjacents ::
  "GraphVertex \<Rightarrow> GraphVertex list \<Rightarrow> GraphVertex list \<Rightarrow> Graph \<times> GraphVertex list
     \<Rightarrow> Graph \<times> GraphVertex list" where
  "pushAdjacents vertex explored [] (g, frontier) = (g, frontier)"
| "pushAdjacents vertex explored (adjacent # adjacents) (g, frontier) =
     (if \<not> isVertexInArray adjacent frontier \<and> \<not> isVertexInArray adjacent explored
      then pushAdjacents vertex explored adjacents
             (g\<lparr>previous := (previous g)(adjacent \<mapsto> vertex)\<rparr>, frontier @ [adjacent])
      else pushAdjacents vertex explored adjacents (g, frontier))"

text \<open>
  The \<^verbatim>\<open>while\<close> loops. Each returns the outcome of the call, the array \<^verbatim>\<open>explored\<close> at
  the exit of the loop (one entry per iteration: its length is what the method logs as
  \<^verbatim>\<open>Explored vertices\<close>), and the state of the graph.
\<close>

function bfsLoop ::
  "Graph \<Rightarrow> GraphVertex \<Rightarrow> GraphVertex \<Rightarrow> GraphVertex list \<Rightarrow> GraphVertex list
     \<Rightarrow> outcome \<times> GraphVertex list \<times> Graph" where
  "bfsLoop g initialVertex endVertex [] explored = (Some (Inr None), explored, g)"
| "bfsLoop g initialVertex endVertex (vertex # queue) explored =
     (if row vertex = row endVertex \<and> column vertex = column endVertex
      then (reconstructPath g vertex initialVertex, explored @ [vertex], g)
      else bfsLoop (fst (pushAdjacents vertex (explored @ [vertex]) (findAdjacents vertex) (g, queue)))
             initialVertex endVertex
             (snd (pushAdjacents vertex (explored @ [vertex]) (findAdjacents vertex) (g, queue)))
             (explored @ [vertex]))"
  by pat_completeness auto

function dfsLoop ::
  "Graph \<Rightarrow> GraphVertex \<Rightarrow> GraphVertex \<Rightarrow> GraphVertex list \<Rightarrow> GraphVertex list
     \<Rightarrow> outcome \<times> GraphVertex list \<times> Graph" where
  "dfsLoop g initialVertex endVertex stack explored =
     (if stack = [] then (Some (Inr None), explored, g)
      else if row (last stack) = row endVertex \<and> column (last stack) = column endVertex
      then (reconstructPath g (last stack) initialVertex, explored @ [last stack], g)
      else dfsLoop (fst (pushAdjacents (last stack) (explored @ [last stack])
                           (findAdjacents (last stack)) (g, butlast stack)))
             initialVertex endVertex
             (snd (pushAdjacents (last stack) (explored @ [last stack])
                           (findAdjacents (last stack)) (g, butlast stack)))
             (explored @ [last stack]))"
  by pat_completeness auto

text \<open>The two public methods: the frontier starts as \<^verbatim>\<open>[initialVertex]\<close>, \<^verbatim>\<open>explored\<close> as \<^verbatim>\<open>[]\<close>.\<close>

definition knightMovesDFS ::
  "Graph \<Rightarrow> GraphVertex \<Rightarrow> GraphVertex \<Rightarrow> outcome \<times> GraphVertex list \<times> Graph" where
  "knightMovesDFS g initialVertex endVertex = dfsLoop g initialVertex endVertex [initialVertex] []"

definition knightMovesBFS ::
  "Graph \<Rightarrow> GraphVertex \<Rightarrow> GraphVertex \<Rightarrow> outcome \<times> GraphVertex list \<times> Graph" where
  "knightMovesBFS g initialVertex endVertex = bfsLoop g initialVertex endVertex [initialVertex] []"

text \<open>
  A driver such as \<^verbatim>\<open>src/index.js\<close> calls the two methods one after the other on one
  \<^verbatim>\<open>Graph\<close>; each call leaves its \<^verbatim>\<open>previous\<close> links behind for the next.
\<close>

datatype search_call = CallBFS GraphVertex GraphVertex | CallDFS GraphVertex GraphVertex

fun run_call :: "Graph \<Rightarrow> search_call \<Rightarrow> Graph" where
  "run_call g (CallBFS initialVertex endVertex) = snd (snd (knightMovesBFS g initialVertex endVertex))"
| "run_call g (CallDFS initialVertex endVertex) = snd (snd (knightMovesDFS g initialVertex endVertex))"

definition run_calls :: "Graph \<Rightarrow> search_call list \<Rightarrow> Graph" where
  "run_calls g calls = foldl run_call g calls"

section \<open>Notions used to state the properties\<close>

text \<open>The squares of the board, and the eight knight-move offsets.\<close>

definition on_board :: "GraphVertex \<Rightarrow> bool" where
  "on_board v = (0 \<le> row v \<and> row v < boardSize \<and> 0 \<le> column v \<and> column v < boardSize)"

definition knight_offset :: "int \<times> int \<Rightarrow> int \<times> int \<Rightarrow> bool" where
  "knight_offset a b =
     ((\<bar>fst b - fst a\<bar> = 1 \<and> \<bar>snd b - snd a\<bar> = 2)
      \<or> (\<bar>fst b - fst a\<bar> = 2 \<and> \<bar>snd b - snd a\<bar> = 1))"

text \<open>A walk by coordinates: every consecutive pair differs by a knight-move offset.\<close>

fun knight_walk :: "(int \<times> int) list \<Rightarrow> bool" where
  "knight_walk (a # b # r) = (knight_offset a b \<and> knight_walk (b # r))"
| "knight_walk r = True"

text \<open>
  A path of the knight on the board, by coordinates: it starts at \<open>a\<close>, ends at \<open>b\<close>,
  stays on the board and moves by knight-move offsets.
\<close>

definition board_path :: "(int \<times> int) list \<Rightarrow> int \<times> int \<Rightarrow> int \<times> int \<Rightarrow> bool" where
  "board_path p a b \<longleftrightarrow>
     p \<noteq> [] \<and> hd p = a \<and> last p = b
     \<and> list_all (\<lambda>(r, c). 0 \<le> r \<and> r < boardSize \<and> 0 \<le> c \<and> c < boardSize) p
     \<and> knight_walk p"

text \<open>The graph distance: the least number of moves of a path on the board.\<close>

definition knight_distance :: "int \<times> int \<Rightarrow> int \<times> int \<Rightarrow> nat" where
  "knight_distance a b = (LEAST n. \<exists>q. board_path q a b \<and> length q = Suc n)"

section \<open>Notions used in the proofs\<close>

text \<open>
  \<open>chain prev init v c\<close>: following \<^verbatim>\<open>previous\<close> from \<open>v\<close> visits the vertices \<open>c\<close>, each a
  neighbour of its predecessor, and then reaches \<open>init\<close>.
\<close>

inductive chain :: "(GraphVertex \<Rightarrow> GraphVertex option) \<Rightarrow> GraphVertex \<Rightarrow> GraphVertex
    \<Rightarrow> GraphVertex list \<Rightarrow> bool"
  for prev :: "GraphVertex \<Rightarrow> GraphVertex option" and init :: GraphVertex where
  chain_init: "chain prev init init []"
| chain_step: "v \<noteq> init \<Longrightarrow> prev v = Some u \<Longrightarrow> v \<in> set (findAdjacents u)
      \<Longrightarrow> chain prev init u c \<Longrightarrow> chain prev init v (v # c)"

text \<open>Walks in the graph, as lists of vertices.\<close>

fun is_walk :: "GraphVertex list \<Rightarrow> bool" where
  "is_walk (u # v # r) = (v \<in> set (findAdjacents u) \<and> is_walk (v # r))"
| "is_walk r = True"

text \<open>
  What both loops maintain: \<^verbatim>\<open>explored\<close> and the frontier have no vertex in common and no
  duplicate, they hold the start and otherwise squares of the board only, every vertex in
  them has a chain of \<^verbatim>\<open>previous\<close> links back to the start, and the neighbours of an
  explored vertex are all in one of the two.
\<close>

definition search_inv ::
  "(GraphVertex \<Rightarrow> GraphVertex option) \<Rightarrow> GraphVertex \<Rightarrow> GraphVertex list \<Rightarrow> GraphVertex list
     \<Rightarrow> bool" where
  "search_inv prev init frontier explored \<longleftrightarrow>
     distinct (explored @ frontier) \<and>
     init \<in> set explored \<union> set frontier \<and>
     set explored \<union> set frontier \<subseteq> insert init {v. on_board v} \<and>
     (\<forall>v \<in> set explored \<union> set frontier.
        \<exists>c. chain prev init v c \<and> set c \<subseteq> set explored \<union> set frontier) \<and>
     (\<forall>u \<in> set explored. set (findAdjacents u) \<subseteq> set explored \<union> set frontier)"

text \<open>
  What holds of the result of a search: either the goal has a chain of \<^verbatim>\<open>previous\<close> links
  and the path returned follows it, or \<^verbatim>\<open>null\<close> is returned and \<^verbatim>\<open>explored\<close> holds the start,
  not the goal, and is closed under \<^verbatim>\<open>#findAdjacents\<close>.
\<close>

definition search_post ::
  "GraphVertex \<Rightarrow> GraphVertex \<Rightarrow> outcome \<times> GraphVertex list \<times> Graph \<Rightarrow> bool" where
  "search_post init t r =
     (case r of (out, e, g) \<Rightarrow>
        distinct e \<and> set e \<subseteq> insert init {v. on_board v} \<and>
        ((\<exists>c. chain (previous g) init t c
              \<and> out = Some (Inr (Some (map (\<lambda>v. coords v) (init # rev c)))))
         \<or> (out = Some (Inr None) \<and> init \<in> set e \<and> t \<notin> set e
              \<and> (\<forall>u\<in>set e. set (findAdjacents u) \<subseteq> set e))))"

text \<open>
  A second run, from another state \<open>g'\<close> of the \<^verbatim>\<open>previous\<close> fields, that agrees with this
  one on every vertex discovered so far but the start, and whose outcome is \<open>R\<close>.
\<close>

definition agree_inv ::
  "GraphVertex \<Rightarrow> (Graph \<Rightarrow> GraphVertex list \<Rightarrow> GraphVertex list \<Rightarrow> outcome) \<Rightarrow> outcome
     \<Rightarrow> Graph \<Rightarrow> GraphVertex list \<Rightarrow> GraphVertex list \<Rightarrow> bool" where
  "agree_inv init rest R g q e \<longleftrightarrow>
     search_inv (previous g) init q e \<and>
     (\<exists>g'. (\<forall>x \<in> set e \<union> set q - {init}. previous g' x = previous g x) \<and> rest g' q e = R)"

text \<open>\<open>reach s n v\<close>: some walk of \<open>n\<close> edges leads from \<open>s\<close> to \<open>v\<close>.\<close>

inductive reach :: "GraphVertex \<Rightarrow> nat \<Rightarrow> GraphVertex \<Rightarrow> bool" for s :: GraphVertex where
  reach_0: "reach s 0 s"
| reach_Suc: "reach s n u \<Longrightarrow> v \<in> set (findAdjacents u) \<Longrightarrow> reach s (Suc n) v"

definition delta :: "GraphVertex \<Rightarrow> GraphVertex \<Rightarrow> nat" where
  "delta s v = (LEAST n. reach s n v)"

text \<open>
  The vertices are discovered in order of distance from the start, the queue spans at
  most two levels, every vertex at most as far as the head of the queue is already
  discovered, and the chain of \<^verbatim>\<open>previous\<close> links of a discovered vertex is as long as
  its distance.
\<close>

definition bfs_inv ::
  "GraphVertex \<Rightarrow> (GraphVertex \<Rightarrow> GraphVertex option) \<Rightarrow> GraphVertex list \<Rightarrow> GraphVertex list
     \<Rightarrow> bool" where
  "bfs_inv s prev q e \<longleftrightarrow>
     search_inv prev s q e \<and>
     (\<forall>v \<in> set e \<union> set q. \<forall>c. chain prev s v c \<longrightarrow> length c = delta s v) \<and>
     sorted (map (delta s) (e @ q)) \<and>
     (q \<noteq> [] \<longrightarrow> delta s (last q) \<le> delta s (hd q) + 1) \<and>
     (q \<noteq> [] \<longrightarrow> (\<forall>x n. reach s n x \<and> n \<le> delta s (hd q) \<longrightarrow> x \<in> set e \<union> set q))"

text \<open>
  What \<^verbatim>\<open>#connectAdjacents\<close> maintains: the edge lists are symmetric, have no duplicate,
  and hold only neighbours by \<^verbatim>\<open>#findAdjacents\<close>.
\<close>

definition edges_inv :: "Graph \<Rightarrow> bool" where
  "edges_inv g \<longleftrightarrow>
     (\<forall>a b. b \<in> set (edges g a) \<longleftrightarrow> a \<in> set (edges g b)) \<and>
     (\<forall>a. distinct (edges g a)) \<and>
     (\<forall>a b. b \<in> set (edges g a) \<longrightarrow> b \<in> set (findAdjacents a))"

text \<open>The vertices in the order in which \<^verbatim>\<open>#connectAllAdjacents\<close> visits them.\<close>

definition squares :: "GraphVertex list" where
  "squares = concat (map (\<lambda>r. map (\<lambda>c. board r c) [0 .. boardSize - 1]) [0 .. boardSize - 1])"

text \<open>A knight's tour of the board: it certifies that the knight graph is connected.\<close>

definition knights_tour :: "GraphVertex list" where
  "knights_tour =
     [GraphVertex 0 0, GraphVertex 1 2, GraphVertex 0 4, GraphVertex 1 6, GraphVertex 3 7, GraphVertex 5 6,
      GraphVertex 7 7, GraphVertex 6 5, GraphVertex 5 7, GraphVertex 7 6, GraphVertex 6 4, GraphVertex 7 2,
      GraphVertex 6 0, GraphVertex 4 1, GraphVertex 2 0, GraphVertex 0 1, GraphVertex 1 3, GraphVertex 0 5,
      GraphVertex 1 7, GraphVertex 3 6, GraphVertex 2 4, GraphVertex 0 3, GraphVertex 1 1, GraphVertex 3 0,
      GraphVertex 2 2, GraphVertex 1 0, GraphVertex 0 2, GraphVertex 2 1, GraphVertex 4 0, GraphVertex 3 2,
      GraphVertex 5 1, GraphVertex 7 0, GraphVertex 6 2, GraphVertex 4 3, GraphVertex 3 1, GraphVertex 5 0,
      GraphVertex 7 1, GraphVertex 5 2, GraphVertex 7 3, GraphVertex 6 1, GraphVertex 5 3, GraphVertex 7 4,
      GraphVertex 6 6, GraphVertex 4 5, GraphVertex 3 3, GraphVertex 1 4, GraphVertex 0 6, GraphVertex 2 5,
      GraphVertex 4 4, GraphVertex 6 3, GraphVertex 7 5, GraphVertex 6 7, GraphVertex 5 5, GraphVertex 4 7,
      GraphVertex 2 6, GraphVertex 0 7, GraphVertex 1 5, GraphVertex 2 7, GraphVertex 4 6, GraphVertex 3 4,
      GraphVertex 4 2, GraphVertex 2 3, GraphVertex 3 5, GraphVertex 5 4]"

section \<open>Termination, invariants and auxiliary facts\<close>

subsection \<open>The loops terminate\<close>

lemma vertex_eq_iff: "(row v = row w \<and> column v = column w) \<longleftrightarrow> v = w"
  by (cases v; cases w) simp

lemma isVertexInArray_iff: "isVertexInArray v xs \<longleftrightarrow> v \<in> set xs"
  by (simp add: isVertexInArray_def list_ex_iff vertex_eq_iff)

lemma abs_diff_1: "\<bar>a - r\<bar> = 1 \<longleftrightarrow> a = r + 1 \<or> a = r - (1::int)"
  by arith

lemma abs_diff_2: "\<bar>a - r\<bar> = 2 \<longleftrightarrow> a = r + 2 \<or> a = r - (2::int)"
  by arith

lemma in_set_map_filter:
  "w \<in> set (map f (filter P xs)) \<longleftrightarrow> (\<exists>x\<in>set xs. P x \<and> w = f x)"
  by auto

lemma set_findAdjacents:
  "set (findAdjacents v) = {w. on_board w \<and> knight_offset (coords v) (coords w)}"
proof -
  have "w \<in> set (findAdjacents v) \<longleftrightarrow> on_board w \<and> knight_offset (coords v) (coords w)" for w
  proof (cases v; cases w)
    fix r c a b assume v: "v = GraphVertex r c" and w: "w = GraphVertex a b"
    have "w \<in> set (findAdjacents v) \<longleftrightarrow>
       ((0 \<le> r - 2 \<and> r - 2 < 8 \<and> 0 \<le> c + 1 \<and> c + 1 < 8 \<and> a = r - 2 \<and> b = c + 1)
        \<or> (0 \<le> r - 1 \<and> r - 1 < 8 \<and> 0 \<le> c + 2 \<and> c + 2 < 8 \<and> a = r - 1 \<and> b = c + 2)
        \<or> (0 \<le> r + 1 \<and> r + 1 < 8 \<and> 0 \<le> c + 2 \<and> c + 2 < 8 \<and> a = r + 1 \<and> b = c + 2)
        \<or> (0 \<le> r + 2 \<and> r + 2 < 8 \<and> 0 \<le> c + 1 \<and> c + 1 < 8 \<and> a = r + 2 \<and> b = c + 1)
        \<or> (0 \<le> r + 2 \<and> r + 2 < 8 \<and> 0 \<le> c - 1 \<and> c - 1 < 8 \<and> a = r + 2 \<and> b = c - 1)
        \<or> (0 \<le> r + 1 \<and> r + 1 < 8 \<and> 0 \<le> c - 2 \<and> c - 2 < 8 \<and> a = r + 1 \<and> b = c - 2)
        \<or> (0 \<le> r - 1 \<and> r - 1 < 8 \<and> 0 \<le> c - 2 \<and> c - 2 < 8 \<and> a = r - 1 \<and> b = c - 2)
        \<or> (0 \<le> r - 2 \<and> r - 2 < 8 \<and> 0 \<le> c - 1 \<and> c - 1 < 8 \<and> a = r - 2 \<and> b = c - 1))"
      unfolding findAdjacents_def Let_def in_set_map_filter
      by (simp only: list.set bex_simps bex_empty prod.case v w board_def boardSize_def
            GraphVertex.sel GraphVertex.inject simp_thms conj_assoc)
    also have "\<dots> \<longleftrightarrow> on_board w \<and> knight_offset (coords v) (coords w)"
      (is "?lhs \<longleftrightarrow> ?rhs")
    proof
      assume "?lhs"
      then show "?rhs"
        by (elim disjE conjE)
           (simp_all add: on_board_def knight_offset_def v w boardSize_def)
    next
      assume "?rhs"
      then have "(0 \<le> a \<and> a < 8 \<and> 0 \<le> b \<and> b < 8) \<and>
        (((a = r + 1 \<or> a = r - 1) \<and> (b = c + 2 \<or> b = c - 2))
         \<or> ((a = r + 2 \<or> a = r - 2) \<and> (b = c + 1 \<or> b = c - 1)))"
        by (simp add: on_board_def knight_offset_def v w boardSize_def abs_diff_1 abs_diff_2)
      then show "?lhs" by (elim disjE conjE) simp_all
    qed
    finally show ?thesis .
  qed
  then show ?thesis by blast
qed

lemma findAdjacents_on_board: "w \<in> set (findAdjacents v) \<Longrightarrow> on_board w"
  by (simp add: set_findAdjacents)

lemma on_board_set_eq:
  "{v. on_board v} = (\<lambda>(r, c). GraphVertex r c) ` ({0..7} \<times> {0..7})"
proof (rule set_eqI)
  fix v
  obtain r c where v: "v = GraphVertex r c" by (cases v)
  have "v \<in> (\<lambda>(r, c). GraphVertex r c) ` ({0..7} \<times> {0..7}) \<longleftrightarrow> (r, c) \<in> {0..7} \<times> {0..7}"
    unfolding v by force
  also have "\<dots> \<longleftrightarrow> on_board v"
    unfolding v on_board_def boardSize_def by simp linarith
  finally show "v \<in> {v. on_board v} \<longleftrightarrow> v \<in> (\<lambda>(r, c). GraphVertex r c) ` ({0..7} \<times> {0..7})"
    by simp
qed

lemma finite_on_board: "finite {v. on_board v}"
  unfolding on_board_set_eq by simp

lemma card_on_board: "card {v. on_board v} = 64"
proof -
  have "inj_on (\<lambda>(r, c). GraphVertex r c) ({0..7} \<times> {0..7})"
    by (rule inj_onI) (simp add: split_beta prod_eq_iff)
  then have "card {v. on_board v} = card (({0..7} \<times> {0..7}) :: (int \<times> int) set)"
    unfolding on_board_set_eq by (rule card_image)
  then show ?thesis by simp
qed

lemma pushAdjacents_frontier:
  "\<exists>news. snd (pushAdjacents v ex as (g, fr)) = fr @ news \<and> distinct news
      \<and> set news = set as - set fr - set ex
      \<and> edges (fst (pushAdjacents v ex as (g, fr))) = edges g
      \<and> previous (fst (pushAdjacents v ex as (g, fr)))
          = (\<lambda>x. if x \<in> set news then Some v else previous g x)"
proof (induction as arbitrary: g fr)
  case Nil
  show ?case by simp
next
  case (Cons a as)
  show ?case
  proof (cases "a \<in> set fr \<or> a \<in> set ex")
    case True
    from Cons.IH[of g fr] obtain news where
      n: "snd (pushAdjacents v ex as (g, fr)) = fr @ news" "distinct news"
         "set news = set as - set fr - set ex"
         "edges (fst (pushAdjacents v ex as (g, fr))) = edges g"
         "previous (fst (pushAdjacents v ex as (g, fr)))
          = (\<lambda>x. if x \<in> set news then Some v else previous g x)" by blast
    from True n show ?thesis
      by (intro exI[of _ news]) (auto simp: isVertexInArray_iff)
  next
    case False
    let ?g = "g\<lparr>previous := (previous g)(a \<mapsto> v)\<rparr>"
    from Cons.IH[of ?g "fr @ [a]"] obtain news where
      n: "snd (pushAdjacents v ex as (?g, fr @ [a])) = (fr @ [a]) @ news" "distinct news"
         "set news = set as - set (fr @ [a]) - set ex"
         "edges (fst (pushAdjacents v ex as (?g, fr @ [a]))) = edges ?g"
         "previous (fst (pushAdjacents v ex as (?g, fr @ [a])))
          = (\<lambda>x. if x \<in> set news then Some v else previous ?g x)" by blast
    from False n show ?thesis
      by (intro exI[of _ "a # news"]) (auto simp: isVertexInArray_iff fun_eq_iff)
  qed
qed

lemma search_step_decreases:
  assumes q: "set q = insert v (set q')" "length q = Suc (length q')"
  shows "((card ({x. on_board x} - (set (snd (pushAdjacents v (e @ [v]) (findAdjacents v) (g, q')))
                   \<union> set (e @ [v]))),
           length (snd (pushAdjacents v (e @ [v]) (findAdjacents v) (g, q')))),
          (card ({x. on_board x} - (set q \<union> set e)), length q))
         \<in> less_than <*lex*> less_than"
proof -
  obtain news where n: "snd (pushAdjacents v (e @ [v]) (findAdjacents v) (g, q')) = q' @ news"
    "set news = set (findAdjacents v) - set q' - set (e @ [v])"
    using pushAdjacents_frontier[of v "e @ [v]" "findAdjacents v" g q'] by blast
  let ?B = "{x. on_board x}"
  show ?thesis
  proof (cases "news = []")
    case True
    with n q show ?thesis by simp
  next
    case False
    then obtain w where w: "w \<in> set news" by (cases news) auto
    with n have wb: "on_board w" "w \<notin> set q \<union> set e"
      using findAdjacents_on_board q by auto
    have "?B - (set (q' @ news) \<union> set (e @ [v])) \<subset> ?B - (set q \<union> set e)"
      using w wb q by auto
    then have "card (?B - (set (q' @ news) \<union> set (e @ [v]))) < card (?B - (set q \<union> set e))"
      by (intro psubset_card_mono) (auto simp: finite_on_board)
    with n show ?thesis by simp
  qed
qed

termination bfsLoop
proof (relation "inv_image (less_than <*lex*> less_than)
          (\<lambda>(g, i, t, q, e). (card ({x. on_board x} - (set q \<union> set e)), length q))")
  show "wf (inv_image (less_than <*lex*> less_than)
          (\<lambda>(g, i, t, q, e). (card ({x. on_board x} - (set q \<union> set e)), length q)))"
    by (intro wf_inv_image wf_lex_prod wf_less_than)
next
  fix g :: Graph and initialVertex endVertex vertex :: GraphVertex
    and queue explored :: "GraphVertex list"
  have "set (vertex # queue) = insert vertex (set queue)" "length (vertex # queue) = Suc (length queue)"
    by simp_all
  from search_step_decreases[OF this, of explored g]
  show "((fst (pushAdjacents vertex (explored @ [vertex]) (findAdjacents vertex) (g, queue)),
          initialVertex, endVertex,
          snd (pushAdjacents vertex (explored @ [vertex]) (findAdjacents vertex) (g, queue)),
          explored @ [vertex]),
         g, initialVertex, endVertex, vertex # queue, explored)
        \<in> inv_image (less_than <*lex*> less_than)
          (\<lambda>(g, i, t, q, e). (card ({x. on_board x} - (set q \<union> set e)), length q))"
    by (simp only: in_inv_image prod.case)
qed

termination dfsLoop
proof (relation "inv_image (less_than <*lex*> less_than)
          (\<lambda>(g, i, t, q, e). (card ({x. on_board x} - (set q \<union> set e)), length q))")
  show "wf (inv_image (less_than <*lex*> less_than)
          (\<lambda>(g, i, t, q, e). (card ({x. on_board x} - (set q \<union> set e)), length q)))"
    by (intro wf_inv_image wf_lex_prod wf_less_than)
next
  fix g :: Graph and initialVertex endVertex :: GraphVertex
    and stack explored :: "GraphVertex list"
  assume "stack \<noteq> []"
  then have st: "stack = butlast stack @ [last stack]" by simp
  have "set stack = insert (last stack) (set (butlast stack))"
    by (subst st) simp
  moreover have "length stack = Suc (length (butlast stack))"
    by (subst st) simp
  ultimately show "((fst (pushAdjacents (last stack) (explored @ [last stack])
                 (findAdjacents (last stack)) (g, butlast stack)),
          initialVertex, endVertex,
          snd (pushAdjacents (last stack) (explored @ [last stack])
                 (findAdjacents (last stack)) (g, butlast stack)),
          explored @ [last stack]),
         g, initialVertex, endVertex, stack, explored)
        \<in> inv_image (less_than <*lex*> less_than)
          (\<lambda>(g, i, t, q, e). (card ({x. on_board x} - (set q \<union> set e)), length q))"
    using search_step_decreases[of stack "last stack" "butlast stack" explored g]
    by (simp only: in_inv_image prod.case)
qed


declare dfsLoop.simps [simp del]

subsection \<open>The chain of \<^verbatim>\<open>previous\<close> links\<close>

lemma chain_reconstructLoop:
  "chain prev init v c \<Longrightarrow>
     reconstructLoop prev (Some v) init acc = Some (Inr (acc @ map (\<lambda>x. coords x) c))"
proof (induction arbitrary: acc rule: chain.induct)
  case chain_init
  show ?case by (subst reconstructLoop.simps) simp
next
  case (chain_step v u c)
  show ?case
    by (subst reconstructLoop.simps) (simp add: chain_step.hyps chain_step.IH)
qed

lemma chain_reconstructPath:
  "chain (previous g) init v c \<Longrightarrow>
     reconstructPath g v init = Some (Inr (Some (map (\<lambda>x. coords x) (init # rev c))))"
  by (simp add: reconstructPath_def chain_reconstructLoop rev_map)

lemma chain_agree:
  "chain prev init v c \<Longrightarrow> (\<And>x. x \<in> set c \<Longrightarrow> prev' x = prev x) \<Longrightarrow> chain prev' init v c"
proof (induction rule: chain.induct)
  case chain_init
  show ?case by (rule chain.chain_init)
next
  case (chain_step v u c)
  show ?case
  proof (rule chain.chain_step)
    show "v \<noteq> init" by fact
    show "prev' v = Some u" using chain_step.prems[of v] chain_step.hyps by simp
    show "v \<in> set (findAdjacents u)" by fact
    show "chain prev' init u c" using chain_step.IH chain_step.prems by simp
  qed
qed

lemma chain_unique:
  "chain prev init v c \<Longrightarrow> chain prev init v c' \<Longrightarrow> c = c'"
proof (induction arbitrary: c' rule: chain.induct)
  case chain_init
  then show ?case by (auto elim: chain.cases)
next
  case (chain_step v u c)
  from chain_step.prems chain_step.hyps(1) obtain u' c'' where
    "c' = v # c''" "prev v = Some u'" "chain prev init u' c''"
    by (auto elim: chain.cases)
  with chain_step show ?case by simp
qed

lemma is_walk_snoc:
  "is_walk (p @ [u]) \<Longrightarrow> v \<in> set (findAdjacents u) \<Longrightarrow> is_walk ((p @ [u]) @ [v])"
  by (induction p rule: is_walk.induct) auto

lemma chain_walk:
  "chain prev init v c \<Longrightarrow> is_walk (init # rev c) \<and> last (init # rev c) = v"
proof (induction rule: chain.induct)
  case chain_init
  show ?case by simp
next
  case (chain_step v u c)
  then have w: "is_walk (init # rev c)" and l: "last (init # rev c) = u" by simp_all
  obtain p where p: "init # rev c = p @ [u]"
    using l by (metis append_butlast_last_id list.distinct(1))
  have "is_walk ((p @ [u]) @ [v])"
    using w chain_step.hyps(3) unfolding p by (rule is_walk_snoc)
  then have "is_walk ((init # rev c) @ [v])" by (simp only: p)
  then show ?case by simp
qed

subsection \<open>What both loops maintain\<close>

lemma search_inv_initial: "search_inv prev init [init] []"
  unfolding search_inv_def by (auto intro: chain.chain_init)

lemma search_inv_step:
  assumes inv: "search_inv (previous g) init q e"
    and v: "v \<in> set q" and q': "distinct q'" "set q' = set q - {v}"
  shows "search_inv (previous (fst (pushAdjacents v (e @ [v]) (findAdjacents v) (g, q')))) init
           (snd (pushAdjacents v (e @ [v]) (findAdjacents v) (g, q'))) (e @ [v])"
proof -
  obtain news where n: "snd (pushAdjacents v (e @ [v]) (findAdjacents v) (g, q')) = q' @ news"
    "distinct news" "set news = set (findAdjacents v) - set q' - set (e @ [v])"
    "previous (fst (pushAdjacents v (e @ [v]) (findAdjacents v) (g, q')))
          = (\<lambda>x. if x \<in> set news then Some v else previous g x)"
    using pushAdjacents_frontier[of v "e @ [v]" "findAdjacents v" g q'] by blast
  let ?prev' = "\<lambda>x. if x \<in> set news then Some v else previous g x"
  let ?seen = "set e \<union> set q"
  let ?seen' = "set (e @ [v]) \<union> set (q' @ news)"
  from inv have d: "distinct (e @ q)" and i: "init \<in> ?seen"
    and b: "?seen \<subseteq> insert init {v. on_board v}"
    and c: "\<And>x. x \<in> ?seen \<Longrightarrow> \<exists>c. chain (previous g) init x c \<and> set c \<subseteq> ?seen"
    and cl: "\<And>u. u \<in> set e \<Longrightarrow> set (findAdjacents u) \<subseteq> ?seen"
    unfolding search_inv_def by blast+
  have seen': "?seen' = ?seen \<union> set news" using v q' by auto
  have fresh: "set news \<inter> ?seen = {}" using n(3) v q' by auto
  have 1: "distinct ((e @ [v]) @ (q' @ news))"
    using d v q' n(2,3) by auto
  have 2: "init \<in> ?seen'" using i seen' by blast
  have 3: "?seen' \<subseteq> insert init {v. on_board v}"
    using b n(3) findAdjacents_on_board unfolding seen' by blast
  have old: "\<exists>c. chain ?prev' init x c \<and> set c \<subseteq> ?seen" if "x \<in> ?seen" for x
  proof -
    from c[OF that] obtain c where cc: "chain (previous g) init x c" "set c \<subseteq> ?seen" by blast
    have "chain ?prev' init x c"
      using cc(1) by (rule chain_agree) (use cc(2) fresh in auto)
    with cc(2) show ?thesis by blast
  qed
  have 4: "\<exists>c. chain ?prev' init x c \<and> set c \<subseteq> ?seen'" if "x \<in> ?seen'" for x
  proof (cases "x \<in> set news")
    case False
    with that seen' have "x \<in> ?seen" by blast
    from old[OF this] show ?thesis unfolding seen' by blast
  next
    case True
    have "v \<in> ?seen" using v by simp
    from old[OF this] obtain c where cc: "chain ?prev' init v c" "set c \<subseteq> ?seen" by blast
    have "x \<noteq> init" using True fresh i by blast
    moreover have "?prev' x = Some v" using True by simp
    moreover have "x \<in> set (findAdjacents v)" using True n(3) by blast
    ultimately have "chain ?prev' init x (x # c)" using cc(1) by (rule chain.chain_step)
    moreover have "set (x # c) \<subseteq> ?seen'" using cc(2) True unfolding seen' by auto
    ultimately show ?thesis by blast
  qed
  have 5: "set (findAdjacents u) \<subseteq> ?seen'" if "u \<in> set (e @ [v])" for u
  proof (cases "u = v")
    case True
    then show ?thesis using n(3) by auto
  next
    case False
    with that have "u \<in> set e" by simp
    from cl[OF this] show ?thesis unfolding seen' by blast
  qed
  show ?thesis
    unfolding search_inv_def n(1) n(4) using 1 2 3 4 5 by blast
qed

lemma bfsLoop_rule:
  assumes "I g q e"
    and "\<And>g v q e. I g (v # q) e \<Longrightarrow> v \<noteq> t \<Longrightarrow>
        I (fst (pushAdjacents v (e @ [v]) (findAdjacents v) (g, q)))
          (snd (pushAdjacents v (e @ [v]) (findAdjacents v) (g, q))) (e @ [v])"
    and "\<And>g e. I g [] e \<Longrightarrow> Q (Some (Inr None), e, g)"
    and "\<And>g q e. I g (t # q) e \<Longrightarrow> Q (reconstructPath g t init, e @ [t], g)"
  shows "Q (bfsLoop g init t q e)"
  using assms
proof (induction g init t q e rule: bfsLoop.induct)
  case (1 g initialVertex endVertex explored)
  from "1.prems"(3)[OF "1.prems"(1)] show ?case by simp
next
  case (2 g initialVertex endVertex vertex queue explored)
  show ?case
  proof (cases "vertex = endVertex")
    case True
    with "2.prems"(1) have "I g (endVertex # queue) explored" by simp
    from "2.prems"(4)[OF this] show ?thesis using True by (simp add: vertex_eq_iff)
  next
    case False
    then have ne: "\<not> (row vertex = row endVertex \<and> column vertex = column endVertex)"
      by (simp add: vertex_eq_iff)
    have "I (fst (pushAdjacents vertex (explored @ [vertex]) (findAdjacents vertex) (g, queue)))
          (snd (pushAdjacents vertex (explored @ [vertex]) (findAdjacents vertex) (g, queue)))
          (explored @ [vertex])"
      using "2.prems"(2)[OF "2.prems"(1) False] .
    from ne this "2.prems"(2,3,4)
    have "Q (bfsLoop (fst (pushAdjacents vertex (explored @ [vertex]) (findAdjacents vertex) (g, queue)))
          initialVertex endVertex
          (snd (pushAdjacents vertex (explored @ [vertex]) (findAdjacents vertex) (g, queue)))
          (explored @ [vertex]))"
      by (rule "2.IH")
    then show ?thesis using False by (simp add: vertex_eq_iff)
  qed
qed

lemma dfsLoop_rule:
  assumes "I g q e"
    and "\<And>g v q e. I g (q @ [v]) e \<Longrightarrow> v \<noteq> t \<Longrightarrow>
        I (fst (pushAdjacents v (e @ [v]) (findAdjacents v) (g, q)))
          (snd (pushAdjacents v (e @ [v]) (findAdjacents v) (g, q))) (e @ [v])"
    and "\<And>g e. I g [] e \<Longrightarrow> Q (Some (Inr None), e, g)"
    and "\<And>g q e. I g (q @ [t]) e \<Longrightarrow> Q (reconstructPath g t init, e @ [t], g)"
  shows "Q (dfsLoop g init t q e)"
  using assms
proof (induction g init t q e rule: dfsLoop.induct)
  case (1 g initialVertex endVertex stack explored)
  show ?case
  proof (cases "stack = []")
    case True
    with "1.prems"(1) have "I g [] explored" by simp
    from "1.prems"(3)[OF this] show ?thesis using True by (subst dfsLoop.simps) simp
  next
    case ne: False
    then have st: "stack = butlast stack @ [last stack]" by simp
    show ?thesis
    proof (cases "last stack = endVertex")
      case True
      have "I g (butlast stack @ [endVertex]) explored"
        using "1.prems"(1) st True by simp
      from "1.prems"(4)[OF this] show ?thesis
        using ne True by (subst dfsLoop.simps) (simp add: vertex_eq_iff)
    next
      case False
      then have nt: "\<not> (row (last stack) = row endVertex \<and> column (last stack) = column endVertex)"
        by (simp add: vertex_eq_iff)
      have "I g (butlast stack @ [last stack]) explored"
        using "1.prems"(1) st by simp
      from "1.prems"(2)[OF this False]
      have "I (fst (pushAdjacents (last stack) (explored @ [last stack])
                 (findAdjacents (last stack)) (g, butlast stack)))
              (snd (pushAdjacents (last stack) (explored @ [last stack])
                 (findAdjacents (last stack)) (g, butlast stack)))
              (explored @ [last stack])" .
      from ne nt this "1.prems"(2,3,4)
      have "Q (dfsLoop (fst (pushAdjacents (last stack) (explored @ [last stack])
                 (findAdjacents (last stack)) (g, butlast stack)))
              initialVertex endVertex
              (snd (pushAdjacents (last stack) (explored @ [last stack])
                 (findAdjacents (last stack)) (g, butlast stack)))
              (explored @ [last stack]))"
        by (rule "1.IH")
      then show ?thesis
        using ne False by (subst dfsLoop.simps) (simp add: vertex_eq_iff)
    qed
  qed
qed

subsection \<open>The knight graph on the board is connected\<close>

lemma tour_walk: "knight_walk (map (\<lambda>v. coords v) knights_tour)"
  by (simp add: knights_tour_def knight_offset_def)

lemma tour_on_board: "list_all on_board knights_tour"
  by (simp add: knights_tour_def on_board_def boardSize_def)

lemma tour_complete_aux:
  "list_all (\<lambda>r. list_all (\<lambda>c. GraphVertex r c \<in> set knights_tour) [0..7]) [0..7]"
  by code_simp

lemma tour_complete: "on_board v \<Longrightarrow> v \<in> set knights_tour"
proof -
  assume "on_board v"
  then have "v \<in> (\<lambda>(r, c). GraphVertex r c) ` ({0..7} \<times> {0..7})"
    using on_board_set_eq by blast
  then obtain r c where v: "v = GraphVertex r c" and r: "r \<in> set [0..7]" and c: "c \<in> set [0..7]"
    by auto
  from tour_complete_aux r c show ?thesis
    unfolding v list_all_iff by blast
qed

lemma knight_offset_sym: "knight_offset a b \<longleftrightarrow> knight_offset b a"
  by (simp add: knight_offset_def abs_minus_commute)

lemma findAdjacents_sym:
  "on_board u \<Longrightarrow> v \<in> set (findAdjacents u) \<Longrightarrow> u \<in> set (findAdjacents v)"
  using knight_offset_sym by (simp add: set_findAdjacents)

lemma closed_walk:
  assumes closed: "\<forall>u\<in>S. set (findAdjacents u) \<subseteq> S"
  shows "list_all on_board T \<Longrightarrow> knight_walk (map (\<lambda>v. coords v) T) \<Longrightarrow> \<exists>x\<in>set T. x \<in> S
           \<Longrightarrow> set T \<subseteq> S"
proof (induction T rule: induct_list012)
  case 1
  then show ?case by simp
next
  case (2 a)
  then show ?case by simp
next
  case (3 a b r)
  from "3.prems" have ab: "on_board a" "on_board b" "knight_offset (coords a) (coords b)"
    and r: "list_all on_board (b # r)" "knight_walk (map (\<lambda>v. coords v) (b # r))"
    by simp_all
  have ba: "b \<in> set (findAdjacents a)" using ab by (simp add: set_findAdjacents)
  then have ab': "a \<in> set (findAdjacents b)" using ab(1) by (rule findAdjacents_sym[rotated])
  from "3.prems"(3) consider "a \<in> S" | "\<exists>x\<in>set (b # r). x \<in> S" by auto
  then show ?case
  proof cases
    case 1
    with closed ba have "b \<in> S" by blast
    then have "\<exists>x\<in>set (b # r). x \<in> S" by auto
    from "3.IH"(2)[OF r this] 1 show ?thesis by simp
  next
    case 2
    from "3.IH"(2)[OF r this] have sub: "set (b # r) \<subseteq> S" .
    then have "b \<in> S" by simp
    with closed ab' have "a \<in> S" by blast
    with sub show ?thesis by simp
  qed
qed

lemma closed_contains_board:
  assumes "\<forall>u\<in>S. set (findAdjacents u) \<subseteq> S" and "init \<in> S" and "on_board init"
  shows "{v. on_board v} \<subseteq> S"
proof -
  have "\<exists>x\<in>set knights_tour. x \<in> S"
    using assms(2,3) tour_complete by blast
  with closed_walk[OF assms(1) tour_on_board tour_walk] have "set knights_tour \<subseteq> S" .
  then show ?thesis using tour_complete by blast
qed

lemma search_post_null:
  assumes "search_inv (previous g) init [] e \<and> t \<notin> set e"
  shows "search_post init t (Some (Inr None), e, g)"
  using assms unfolding search_post_def search_inv_def by auto

lemma search_post_found:
  assumes "search_inv (previous g) init q e \<and> t \<notin> set e" and "t \<in> set q"
  shows "search_post init t (reconstructPath g t init, e @ [t], g)"
proof -
  from assms obtain c where c: "chain (previous g) init t c"
    unfolding search_inv_def by blast
  have "distinct (e @ [t])" "set (e @ [t]) \<subseteq> insert init {v. on_board v}"
    using assms unfolding search_inv_def by auto
  with c chain_reconstructPath[OF c] show ?thesis
    unfolding search_post_def by auto
qed

lemma bfs_post: "search_post init t (knightMovesBFS g init t)"
  unfolding knightMovesBFS_def
proof (rule bfsLoop_rule[where I = "\<lambda>g q e. search_inv (previous g) init q e \<and> t \<notin> set e"])
  show "search_inv (previous g) init [init] [] \<and> t \<notin> set []"
    by (simp add: search_inv_initial)
next
  fix g :: Graph and v q e
  assume i: "search_inv (previous g) init (v # q) e \<and> t \<notin> set e" and vt: "v \<noteq> t"
  then have "distinct (e @ v # q)" unfolding search_inv_def by blast
  then have d: "distinct q" and s: "set q = set (v # q) - {v}" by auto
  have m: "v \<in> set (v # q)" by simp
  from search_inv_step[OF conjunct1[OF i] m d s] conjunct2[OF i] vt
  show "search_inv (previous (fst (pushAdjacents v (e @ [v]) (findAdjacents v) (g, q)))) init
          (snd (pushAdjacents v (e @ [v]) (findAdjacents v) (g, q))) (e @ [v])
        \<and> t \<notin> set (e @ [v])"
    by simp
next
  fix g :: Graph and e
  assume "search_inv (previous g) init [] e \<and> t \<notin> set e"
  then show "search_post init t (Some (Inr None), e, g)" by (rule search_post_null)
next
  fix g :: Graph and q e
  assume "search_inv (previous g) init (t # q) e \<and> t \<notin> set e"
  then show "search_post init t (reconstructPath g t init, e @ [t], g)"
    by (rule search_post_found) simp
qed

lemma dfs_post: "search_post init t (knightMovesDFS g init t)"
  unfolding knightMovesDFS_def
proof (rule dfsLoop_rule[where I = "\<lambda>g q e. search_inv (previous g) init q e \<and> t \<notin> set e"])
  show "search_inv (previous g) init [init] [] \<and> t \<notin> set []"
    by (simp add: search_inv_initial)
next
  fix g :: Graph and v q e
  assume i: "search_inv (previous g) init (q @ [v]) e \<and> t \<notin> set e" and vt: "v \<noteq> t"
  then have "distinct (e @ q @ [v])" unfolding search_inv_def by blast
  then have d: "distinct q" and s: "set q = set (q @ [v]) - {v}" by auto
  have m: "v \<in> set (q @ [v])" by simp
  from search_inv_step[OF conjunct1[OF i] m d s] conjunct2[OF i] vt
  show "search_inv (previous (fst (pushAdjacents v (e @ [v]) (findAdjacents v) (g, q)))) init
          (snd (pushAdjacents v (e @ [v]) (findAdjacents v) (g, q))) (e @ [v])
        \<and> t \<notin> set (e @ [v])"
    by simp
next
  fix g :: Graph and e
  assume "search_inv (previous g) init [] e \<and> t \<notin> set e"
  then show "search_post init t (Some (Inr None), e, g)" by (rule search_post_null)
next
  fix g :: Graph and q e
  assume "search_inv (previous g) init (q @ [t]) e \<and> t \<notin> set e"
  then show "search_post init t (reconstructPath g t init, e @ [t], g)"
    by (rule search_post_found) simp
qed

lemma search_post_on_board:
  assumes "search_post init t (out, e, g)" and "on_board init" and "on_board t"
  shows "\<exists>c. chain (previous g) init t c
              \<and> out = Some (Inr (Some (map (\<lambda>v. coords v) (init # rev c))))"
proof (rule ccontr)
  assume "\<not> ?thesis"
  with assms(1) have "init \<in> set e" "t \<notin> set e" "\<forall>u\<in>set e. set (findAdjacents u) \<subseteq> set e"
    unfolding search_post_def by auto
  from closed_contains_board[OF this(3) this(1) assms(2)] assms(3) this(2)
  show False by blast
qed

lemma search_post_explored:
  assumes "search_post init t (out, e, g)" and "on_board init"
  shows "distinct e \<and> length e \<le> 64"
proof -
  from assms have d: "distinct e" and s: "set e \<subseteq> {v. on_board v}"
    unfolding search_post_def by auto
  from s have "card (set e) \<le> card {v. on_board v}"
    by (rule card_mono[OF finite_on_board])
  with d show ?thesis by (simp add: distinct_card card_on_board)
qed

subsection \<open>The path returned\<close>

lemma is_walk_knight_walk: "is_walk vs \<Longrightarrow> knight_walk (map (\<lambda>v. coords v) vs)"
  by (induction vs rule: is_walk.induct) (simp_all add: set_findAdjacents)

lemma chain_path_valid:
  assumes "chain prev init t c"
  shows "hd (map (\<lambda>v. coords v) (init # rev c)) = coords init
     \<and> last (map (\<lambda>v. coords v) (init # rev c)) = coords t
     \<and> knight_walk (map (\<lambda>v. coords v) (init # rev c))"
proof -
  from chain_walk[OF assms] have w: "is_walk (init # rev c)" and l: "last (init # rev c) = t"
    by simp_all
  have "last (map (\<lambda>v. coords v) (init # rev c)) = coords (last (init # rev c))"
    by (rule last_map) simp
  with l is_walk_knight_walk[OF w] show ?thesis by simp
qed

lemma found_path_valid:
  assumes "search_post start goal r" and "on_board start" and "on_board goal"
  shows "\<exists>p. fst r = Some (Inr (Some p)) \<and> hd p = coords start \<and> last p = coords goal
            \<and> knight_walk p"
proof -
  obtain out e g where r: "r = (out, e, g)" by (cases r)
  from search_post_on_board[OF assms(1)[unfolded r] assms(2,3)] obtain c where
    c: "chain (previous g) start goal c"
       "out = Some (Inr (Some (map (\<lambda>v. coords v) (start # rev c))))" by blast
  from chain_path_valid[OF c(1)] c(2) show ?thesis unfolding r by simp
qed

lemma explored_bound:
  assumes "search_post start goal r" and "on_board start" and "on_board goal"
  shows "(\<exists>res. fst r = Some res) \<and> distinct (fst (snd r)) \<and> length (fst (snd r)) \<le> 64"
proof -
  obtain out e g where r: "r = (out, e, g)" by (cases r)
  from search_post_on_board[OF assms(1)[unfolded r] assms(2,3)]
    search_post_explored[OF assms(1)[unfolded r] assms(2)]
  show ?thesis unfolding r by auto
qed

subsection \<open>Earlier searches on the same graph\<close>

lemma pushAdjacents_frontier_indep:
  "snd (pushAdjacents v ex as (g, fr)) = snd (pushAdjacents v ex as (g', fr))"
  by (induction as arbitrary: g g' fr) auto

lemma pushAdjacents_previous:
  "previous (fst (pushAdjacents v ex as (g, fr))) x =
     (if x \<in> set (snd (pushAdjacents v ex as (g, fr))) \<and> x \<notin> set fr then Some v
      else previous g x)"
proof -
  obtain news where n: "snd (pushAdjacents v ex as (g, fr)) = fr @ news"
      "set news = set as - set fr - set ex"
      "previous (fst (pushAdjacents v ex as (g, fr)))
          = (\<lambda>x. if x \<in> set news then Some v else previous g x)"
    using pushAdjacents_frontier[of v ex as g fr] by blast
  show ?thesis unfolding n(1) n(3) using n(2) by auto
qed

lemma chain_avoids_init: "chain prev init v c \<Longrightarrow> init \<notin> set c"
  by (induction rule: chain.induct) auto

lemma agree_inv_step:
  assumes a: "agree_inv init rest R g q e" and v: "v \<in> set q"
    and q': "distinct q'" "set q' = set q - {v}"
    and unfold: "\<And>g'. rest g' q e =
        rest (fst (pushAdjacents v (e @ [v]) (findAdjacents v) (g', q')))
             (snd (pushAdjacents v (e @ [v]) (findAdjacents v) (g', q'))) (e @ [v])"
  shows "agree_inv init rest R (fst (pushAdjacents v (e @ [v]) (findAdjacents v) (g, q')))
           (snd (pushAdjacents v (e @ [v]) (findAdjacents v) (g, q'))) (e @ [v])"
proof -
  let ?P = "\<lambda>g. pushAdjacents v (e @ [v]) (findAdjacents v) (g, q')"
  from a obtain g' where inv: "search_inv (previous g) init q e"
    and ag: "\<And>x. x \<in> set e \<union> set q - {init} \<Longrightarrow> previous g' x = previous g x"
    and r: "rest g' q e = R"
    unfolding agree_inv_def by blast
  have fr: "snd (?P g') = snd (?P g)" by (rule pushAdjacents_frontier_indep)
  have "previous (fst (?P g')) x = previous (fst (?P g)) x"
    if "x \<in> set (e @ [v]) \<union> set (snd (?P g)) - {init}" for x
  proof (cases "x \<in> set (snd (?P g)) \<and> x \<notin> set q'")
    case True
    then show ?thesis by (simp add: pushAdjacents_previous fr)
  next
    case False
    with that have "x \<in> set e \<union> set q - {init}" using v q'(2) by auto
    from ag[OF this] False show ?thesis by (auto simp: pushAdjacents_previous fr)
  qed
  moreover have "rest (fst (?P g')) (snd (?P g)) (e @ [v]) = R"
    using unfold[of g'] r fr by simp
  moreover have "search_inv (previous (fst (?P g))) init (snd (?P g)) (e @ [v])"
    using inv v q' by (rule search_inv_step)
  ultimately show ?thesis unfolding agree_inv_def by blast
qed

lemma agree_inv_found:
  assumes a: "agree_inv init rest R g q e" and t: "t \<in> set q"
    and unfold: "\<And>g'. rest g' q e = reconstructPath g' t init"
  shows "reconstructPath g t init = R"
proof -
  from a obtain g' where inv: "search_inv (previous g) init q e"
    and ag: "\<And>x. x \<in> set e \<union> set q - {init} \<Longrightarrow> previous g' x = previous g x"
    and r: "rest g' q e = R"
    unfolding agree_inv_def by blast
  from inv t obtain c where c: "chain (previous g) init t c" "set c \<subseteq> set e \<union> set q"
    unfolding search_inv_def by blast
  have "chain (previous g') init t c"
    using c(1) by (rule chain_agree) (use c(2) chain_avoids_init[OF c(1)] ag in blast)
  from chain_reconstructPath[OF this] chain_reconstructPath[OF c(1)] unfold[of g'] r
  show ?thesis by simp
qed

lemma bfs_state_independent:
  "fst (knightMovesBFS g init t) = fst (knightMovesBFS g2 init t)"
  unfolding knightMovesBFS_def
proof (rule bfsLoop_rule[where
      I = "agree_inv init (\<lambda>g q e. fst (bfsLoop g init t q e)) (fst (bfsLoop g2 init t [init] []))"
      and Q = "\<lambda>r. fst r = fst (bfsLoop g2 init t [init] [])"])
  show "agree_inv init (\<lambda>g q e. fst (bfsLoop g init t q e)) (fst (bfsLoop g2 init t [init] []))
          g [init] []"
    unfolding agree_inv_def using search_inv_initial by auto
next
  fix g :: Graph and v q e
  assume a: "agree_inv init (\<lambda>g q e. fst (bfsLoop g init t q e)) (fst (bfsLoop g2 init t [init] []))
               g (v # q) e" and vt: "v \<noteq> t"
  then have "distinct (e @ v # q)" unfolding agree_inv_def search_inv_def by blast
  then have d: "distinct q" and s: "set q = set (v # q) - {v}" by auto
  have m: "v \<in> set (v # q)" by simp
  show "agree_inv init (\<lambda>g q e. fst (bfsLoop g init t q e)) (fst (bfsLoop g2 init t [init] []))
          (fst (pushAdjacents v (e @ [v]) (findAdjacents v) (g, q)))
          (snd (pushAdjacents v (e @ [v]) (findAdjacents v) (g, q))) (e @ [v])"
    using a m d s
  proof (rule agree_inv_step)
    fix g'
    show "fst (bfsLoop g' init t (v # q) e) =
          fst (bfsLoop (fst (pushAdjacents v (e @ [v]) (findAdjacents v) (g', q))) init t
                (snd (pushAdjacents v (e @ [v]) (findAdjacents v) (g', q))) (e @ [v]))"
      using vt by (simp add: vertex_eq_iff)
  qed
next
  fix g :: Graph and e
  assume "agree_inv init (\<lambda>g q e. fst (bfsLoop g init t q e)) (fst (bfsLoop g2 init t [init] []))
            g [] e"
  then show "fst (Some (Inr None), e, g) = fst (bfsLoop g2 init t [init] [])"
    unfolding agree_inv_def by auto
next
  fix g :: Graph and q e
  assume a: "agree_inv init (\<lambda>g q e. fst (bfsLoop g init t q e)) (fst (bfsLoop g2 init t [init] []))
            g (t # q) e"
  have "reconstructPath g t init = fst (bfsLoop g2 init t [init] [])"
    using a by (rule agree_inv_found) simp_all
  then show "fst (reconstructPath g t init, e @ [t], g) = fst (bfsLoop g2 init t [init] [])"
    by simp
qed

lemma dfs_state_independent:
  "fst (knightMovesDFS g init t) = fst (knightMovesDFS g2 init t)"
  unfolding knightMovesDFS_def
proof (rule dfsLoop_rule[where
      I = "agree_inv init (\<lambda>g q e. fst (dfsLoop g init t q e)) (fst (dfsLoop g2 init t [init] []))"
      and Q = "\<lambda>r. fst r = fst (dfsLoop g2 init t [init] [])"])
  show "agree_inv init (\<lambda>g q e. fst (dfsLoop g init t q e)) (fst (dfsLoop g2 init t [init] []))
          g [init] []"
    unfolding agree_inv_def using search_inv_initial by auto
next
  fix g :: Graph and v q e
  assume a: "agree_inv init (\<lambda>g q e. fst (dfsLoop g init t q e)) (fst (dfsLoop g2 init t [init] []))
               g (q @ [v]) e" and vt: "v \<noteq> t"
  then have "distinct (e @ q @ [v])" unfolding agree_inv_def search_inv_def by blast
  then have d: "distinct q" and s: "set q = set (q @ [v]) - {v}" by auto
  have m: "v \<in> set (q @ [v])" by simp
  show "agree_inv init (\<lambda>g q e. fst (dfsLoop g init t q e)) (fst (dfsLoop g2 init t [init] []))
          (fst (pushAdjacents v (e @ [v]) (findAdjacents v) (g, q)))
          (snd (pushAdjacents v (e @ [v]) (findAdjacents v) (g, q))) (e @ [v])"
    using a m d s
  proof (rule agree_inv_step)
    fix g'
    show "fst (dfsLoop g' init t (q @ [v]) e) =
          fst (dfsLoop (fst (pushAdjacents v (e @ [v]) (findAdjacents v) (g', q))) init t
                (snd (pushAdjacents v (e @ [v]) (findAdjacents v) (g', q))) (e @ [v]))"
      using vt by (subst dfsLoop.simps) (simp add: vertex_eq_iff)
  qed
next
  fix g :: Graph and e
  assume "agree_inv init (\<lambda>g q e. fst (dfsLoop g init t q e)) (fst (dfsLoop g2 init t [init] []))
            g [] e"
  then have "fst (dfsLoop g2 init t [init] []) = Some (Inr None)"
    unfolding agree_inv_def by (subst (asm) dfsLoop.simps) auto
  then show "fst (Some (Inr None), e, g) = fst (dfsLoop g2 init t [init] [])"
    by simp
next
  fix g :: Graph and q e
  assume a: "agree_inv init (\<lambda>g q e. fst (dfsLoop g init t q e)) (fst (dfsLoop g2 init t [init] []))
            g (q @ [t]) e"
  have "reconstructPath g t init = fst (dfsLoop g2 init t [init] [])"
    using a
  proof (rule agree_inv_found)
    show "t \<in> set (q @ [t])" by simp
  next
    fix g'
    show "fst (dfsLoop g' init t (q @ [t]) e) = reconstructPath g' t init"
      by (subst dfsLoop.simps) simp
  qed
  then show "fst (reconstructPath g t init, e @ [t], g) = fst (dfsLoop g2 init t [init] [])"
    by simp
qed

subsection \<open>Distance in the knight graph\<close>

lemma delta_le: "reach s n v \<Longrightarrow> delta s v \<le> n"
  unfolding delta_def by (rule Least_le)

lemma reach_delta: "reach s n v \<Longrightarrow> reach s (delta s v) v"
  unfolding delta_def by (rule LeastI)

lemma delta_start: "delta s s = 0"
  using delta_le[OF reach_0] by simp

lemma reach_Suc_cases:
  "reach s (Suc n) x \<Longrightarrow> \<exists>u. reach s n u \<and> x \<in> set (findAdjacents u)"
  by (erule reach.cases) auto

lemma chain_reach: "chain prev s v c \<Longrightarrow> reach s (length c) v"
proof (induction rule: chain.induct)
  case chain_init
  show ?case by (simp add: reach_0)
next
  case (chain_step v u c)
  from reach_Suc[OF chain_step.IH chain_step.hyps(3)] show ?case by simp
qed

lemma knight_walk_snoc:
  "knight_walk (p @ [a, b]) \<longleftrightarrow> knight_walk (p @ [a]) \<and> knight_offset a b"
  by (induction p rule: knight_walk.induct) auto

lemma board_path_reach:
  "board_path p (coords s) (coords t) \<Longrightarrow> reach s (length p - 1) t"
proof (induction p arbitrary: t rule: rev_induct)
  case Nil
  then show ?case by (simp add: board_path_def)
next
  case (snoc b p)
  show ?case
  proof (cases "p = []")
    case True
    with snoc.prems have "coords s = coords t" by (auto simp: board_path_def)
    then have "s = t" using vertex_eq_iff by simp
    with True show ?thesis by (simp add: reach_0)
  next
    case False
    then obtain p' a where p: "p = p' @ [a]" by (metis append_butlast_last_id)
    let ?u = "GraphVertex (fst a) (snd a)"
    from snoc.prems have b: "b = coords t" and w: "knight_walk (p' @ [a, b])"
      and h: "hd (p @ [b]) = coords s"
      and ob: "list_all (\<lambda>(r, c). 0 \<le> r \<and> r < boardSize \<and> 0 \<le> c \<and> c < boardSize) (p @ [b])"
      unfolding board_path_def p by auto
    from w have w': "knight_walk p" and o: "knight_offset a b"
      unfolding p knight_walk_snoc by simp_all
    have hp: "hd p = coords s" using h False by simp
    have op: "list_all (\<lambda>(r, c). 0 \<le> r \<and> r < boardSize \<and> 0 \<le> c \<and> c < boardSize) p"
      using ob by simp
    have lp: "last p = coords ?u" unfolding p by simp
    have "board_path p (coords s) (coords ?u)"
      unfolding board_path_def using False hp op lp w' by blast
    from snoc.IH[OF this] have r: "reach s (length p - 1) ?u" .
    have "on_board t" using ob b by (simp add: on_board_def)
    with o b have "t \<in> set (findAdjacents ?u)" by (simp add: set_findAdjacents)
    from reach_Suc[OF r this] False show ?thesis by (cases p) simp_all
  qed
qed

subsection \<open>What the breadth-first loop maintains\<close>

lemma chain_start_Nil: "chain prev s s c \<Longrightarrow> c = []"
  by (erule chain.cases) auto

lemma chain_step_cases:
  "chain prev s w c \<Longrightarrow> w \<noteq> s \<Longrightarrow> \<exists>u c'. c = w # c' \<and> prev w = Some u \<and> chain prev s u c'"
  by (erule chain.cases) auto

lemma reach_0_cases: "reach s 0 x \<Longrightarrow> x = s"
  by (erule reach.cases) auto

lemma bfs_inv_initial: "bfs_inv s prev [s] []"
  unfolding bfs_inv_def
  by (auto simp: search_inv_initial delta_start dest: chain_start_Nil reach_0_cases)

lemma sorted_map_const: "(\<And>x. x \<in> set l \<Longrightarrow> f x = (k::nat)) \<Longrightarrow> sorted (map f l)"
  by (induction l) auto

lemma sorted_le_last: "sorted (l :: nat list) \<Longrightarrow> x \<in> set l \<Longrightarrow> x \<le> last l"
  by (induction l) (auto split: if_splits)

lemma bfs_inv_step:
  assumes inv: "bfs_inv s (previous g) (v # q) e"
  shows "bfs_inv s (previous (fst (pushAdjacents v (e @ [v]) (findAdjacents v) (g, q))))
           (snd (pushAdjacents v (e @ [v]) (findAdjacents v) (g, q))) (e @ [v])"
proof -
  obtain news where n: "snd (pushAdjacents v (e @ [v]) (findAdjacents v) (g, q)) = q @ news"
    "distinct news" "set news = set (findAdjacents v) - set q - set (e @ [v])"
    "previous (fst (pushAdjacents v (e @ [v]) (findAdjacents v) (g, q)))
          = (\<lambda>x. if x \<in> set news then Some v else previous g x)"
    using pushAdjacents_frontier[of v "e @ [v]" "findAdjacents v" g q] by blast
  let ?prev = "previous g"
  let ?prev' = "\<lambda>x. if x \<in> set news then Some v else previous g x"
  let ?seen = "set e \<union> set (v # q)"
  let ?seen' = "set (e @ [v]) \<union> set (q @ news)"
  let ?d = "delta s v"
  from inv have si: "search_inv ?prev s (v # q) e"
    and ch: "\<And>x c. x \<in> ?seen \<Longrightarrow> chain ?prev s x c \<Longrightarrow> length c = delta s x"
    and so: "sorted (map (delta s) (e @ v # q))"
    and la: "delta s (last (v # q)) \<le> ?d + 1"
    and co: "\<And>x n. reach s n x \<Longrightarrow> n \<le> ?d \<Longrightarrow> x \<in> ?seen"
    unfolding bfs_inv_def by auto
  from si have dist: "distinct (e @ v # q)" and sseen: "s \<in> ?seen"
    and cex: "\<And>x. x \<in> ?seen \<Longrightarrow> \<exists>c. chain ?prev s x c \<and> set c \<subseteq> ?seen"
    unfolding search_inv_def by blast+
  from dist have dq: "distinct q" and sq: "set q = set (v # q) - {v}" by auto
  have m: "v \<in> set (v # q)" by simp
  have si': "search_inv ?prev' s (q @ news) (e @ [v])"
    using search_inv_step[OF si m dq sq] unfolding n(1) n(4) .
  have seen': "?seen' = ?seen \<union> set news" by auto
  have fresh: "set news \<inter> ?seen = {}" using n(3) by auto
  \<comment> \<open>the vertex removed is at its distance\<close>
  have rv: "reach s ?d v"
  proof -
    from cex[of v] obtain c where "chain ?prev s v c" by auto
    from reach_delta[OF chain_reach[OF this]] show ?thesis .
  qed
  \<comment> \<open>the rest of the queue lies within one level\<close>
  have qb: "?d \<le> delta s y \<and> delta s y \<le> ?d + 1" if "y \<in> set q" for y
  proof -
    from so have s1: "sorted (map (delta s) (v # q))" by (simp add: sorted_append)
    with that have "?d \<le> delta s y" by auto
    moreover have "delta s y \<le> last (map (delta s) (v # q))"
      using s1 that by (intro sorted_le_last) auto
    moreover have "last (map (delta s) (v # q)) = delta s (last (v # q))"
      by (rule last_map) simp
    ultimately show ?thesis using la by simp
  qed
  have eb: "delta s y \<le> ?d" if "y \<in> set e" for y
    using so that by (auto simp: sorted_append)
  \<comment> \<open>the new vertices are one level further\<close>
  have nd: "delta s w = ?d + 1" if "w \<in> set news" for w
  proof -
    from that n(3) have adj: "w \<in> set (findAdjacents v)" by blast
    from reach_Suc[OF rv adj] have r: "reach s (Suc ?d) w" .
    then have up: "delta s w \<le> ?d + 1" using delta_le by fastforce
    have "\<not> delta s w \<le> ?d"
    proof
      assume "delta s w \<le> ?d"
      from co[OF reach_delta[OF r] this] that fresh show False by blast
    qed
    with up show ?thesis by simp
  qed
  \<comment> \<open>chains\<close>
  have old: "length c = delta s x" if "x \<in> ?seen" and c: "chain ?prev' s x c" for x c
  proof -
    from cex[OF that(1)] obtain c0 where c0: "chain ?prev s x c0" "set c0 \<subseteq> ?seen" by blast
    have "chain ?prev' s x c0"
      using c0(1) by (rule chain_agree) (use c0(2) fresh in auto)
    from chain_unique[OF this c] ch[OF that(1) c0(1)] show ?thesis by simp
  qed
  have 2: "length c = delta s x" if x: "x \<in> ?seen'" and c: "chain ?prev' s x c" for x c
  proof (cases "x \<in> set news")
    case False
    with x have "x \<in> ?seen" by auto
    from old[OF this c] show ?thesis .
  next
    case True
    with fresh sseen have "x \<noteq> s" by blast
    from chain_step_cases[OF c this] obtain u c' where
      u: "c = x # c'" "?prev' x = Some u" "chain ?prev' s u c'" by blast
    from u(2) True have "u = v" by simp
    with u(3) have "chain ?prev' s v c'" by simp
    from old[OF _ this] have "length c' = ?d" by simp
    with u(1) nd[OF True] show ?thesis by simp
  qed
  \<comment> \<open>order of discovery\<close>
  have 3: "sorted (map (delta s) ((e @ [v]) @ (q @ news)))"
  proof -
    have "sorted (map (delta s) news)" using nd by (rule sorted_map_const)
    moreover have "delta s x \<le> delta s w" if "x \<in> set (e @ v # q)" "w \<in> set news" for x w
      using that eb qb nd by fastforce
    ultimately have "sorted (map (delta s) (e @ v # q) @ map (delta s) news)"
      using so by (simp only: sorted_append) auto
    then show ?thesis by simp
  qed
  have all: "?d \<le> delta s y \<and> delta s y \<le> ?d + 1" if "y \<in> set (q @ news)" for y
    using that qb nd by fastforce
  have 4: "delta s (last (q @ news)) \<le> delta s (hd (q @ news)) + 1" if ne: "q @ news \<noteq> []"
  proof -
    from ne have "last (q @ news) \<in> set (q @ news)" "hd (q @ news) \<in> set (q @ news)"
      by (rule last_in_set, rule hd_in_set)
    from all[OF this(1)] all[OF this(2)] show ?thesis by simp
  qed
  have 5: "x \<in> ?seen'" if ne: "q @ news \<noteq> []" and r: "reach s k x"
    and k: "k \<le> delta s (hd (q @ news))" for x k
  proof (cases "k \<le> ?d")
    case True
    from co[OF r this] show ?thesis by auto
  next
    case False
    from ne have hin: "hd (q @ news) \<in> set (q @ news)" by (rule hd_in_set)
    from all[OF hin] k False have hd: "delta s (hd (q @ news)) = ?d + 1" and kk: "k = Suc ?d"
      by simp_all
    from reach_Suc_cases[OF r[unfolded kk]] obtain u where
      u: "reach s ?d u" "x \<in> set (findAdjacents u)" by blast
    from co[OF u(1)] have useen: "u \<in> ?seen" by simp
    have "u \<notin> set q"
    proof
      assume uq: "u \<in> set q"
      from 3 have "sorted (map (delta s) (q @ news))" by (simp add: sorted_append)
      moreover from uq ne have "q @ news = hd (q @ news) # tl (q @ news)" by simp
      ultimately have "sorted (map (delta s) (hd (q @ news) # tl (q @ news)))" by simp
      moreover from uq have "u \<in> set (hd (q @ news) # tl (q @ news))"
        using ne by simp
      ultimately have "delta s (hd (q @ news)) \<le> delta s u" by auto
      with hd delta_le[OF u(1)] show False by simp
    qed
    with useen have "u \<in> set (e @ [v])" by auto
    with si' u(2) show ?thesis unfolding search_inv_def by blast
  qed
  show ?thesis
    unfolding bfs_inv_def n(1) n(4) using si' 2 3 4 5 by blast
qed

lemma bfs_shortest_chain:
  "case knightMovesBFS g s t of (out, e, g') \<Rightarrow>
     out = Some (Inr None)
     \<or> (\<exists>c. chain (previous g') s t c \<and> length c = delta s t
            \<and> out = Some (Inr (Some (map (\<lambda>v. coords v) (s # rev c)))))"
  unfolding knightMovesBFS_def
proof (rule bfsLoop_rule[where I = "\<lambda>g q e. bfs_inv s (previous g) q e"])
  show "bfs_inv s (previous g) [s] []" by (rule bfs_inv_initial)
next
  fix g :: Graph and v q e
  assume "bfs_inv s (previous g) (v # q) e"
  then show "bfs_inv s (previous (fst (pushAdjacents v (e @ [v]) (findAdjacents v) (g, q))))
           (snd (pushAdjacents v (e @ [v]) (findAdjacents v) (g, q))) (e @ [v])"
    by (rule bfs_inv_step)
next
  fix g :: Graph and e :: "GraphVertex list"
  show "case (Some (Inr None), e, g) of (out, e, g') \<Rightarrow>
     out = Some (Inr None)
     \<or> (\<exists>c. chain (previous g') s t c \<and> length c = delta s t
            \<and> out = Some (Inr (Some (map (\<lambda>v. coords v) (s # rev c)))))"
    by simp
next
  fix g :: Graph and q e
  assume inv: "bfs_inv s (previous g) (t # q) e"
  then obtain c where c: "chain (previous g) s t c"
    unfolding bfs_inv_def search_inv_def by fastforce
  with inv have "length c = delta s t" unfolding bfs_inv_def by simp
  with c chain_reconstructPath[OF c]
  show "case (reconstructPath g t s, e @ [t], g) of (out, e, g') \<Rightarrow>
     out = Some (Inr None)
     \<or> (\<exists>c. chain (previous g') s t c \<and> length c = delta s t
            \<and> out = Some (Inr (Some (map (\<lambda>v. coords v) (s # rev c)))))"
    by auto
qed

lemma chain_on_board: "chain prev s v c \<Longrightarrow> x \<in> set c \<Longrightarrow> on_board x"
  by (induction rule: chain.induct) (auto dest: findAdjacents_on_board)

lemma chain_board_path:
  assumes c: "chain prev s t c" and s: "on_board s"
  shows "board_path (map (\<lambda>v. coords v) (s # rev c)) (coords s) (coords t)"
proof -
  have "on_board x" if "x \<in> set (s # rev c)" for x
    using that s chain_on_board[OF c] by auto
  then have "list_all (\<lambda>(r, c). 0 \<le> r \<and> r < boardSize \<and> 0 \<le> c \<and> c < boardSize)
               (map (\<lambda>v. coords v) (s # rev c))"
    unfolding list_all_iff on_board_def by auto
  with chain_path_valid[OF c] show ?thesis unfolding board_path_def by simp
qed

lemma bfs_shortest:
  assumes s: "on_board s" and t: "on_board t"
  shows "\<exists>p. fst (knightMovesBFS g s t) = Some (Inr (Some p))
           \<and> board_path p (coords s) (coords t) \<and> length p = Suc (delta s t)"
proof -
  obtain out e g' where r: "knightMovesBFS g s t = (out, e, g')"
    by (cases "knightMovesBFS g s t")
  from bfs_post[of s t g] have "search_post s t (out, e, g')" unfolding r .
  from search_post_on_board[OF this s t] have "out \<noteq> Some (Inr None)" by auto
  with bfs_shortest_chain[where g = g and s = s and t = t] obtain c where
    c: "chain (previous g') s t c" "length c = delta s t"
       "out = Some (Inr (Some (map (\<lambda>v. coords v) (s # rev c))))"
    unfolding r by auto
  from chain_board_path[OF c(1) s] c(2,3) show ?thesis unfolding r by simp
qed

lemma board_path_delta:
  assumes "board_path q (coords s) (coords t)"
  shows "Suc (delta s t) \<le> length q"
proof -
  from assms have "q \<noteq> []" by (simp add: board_path_def)
  moreover from delta_le[OF board_path_reach[OF assms]] have "delta s t \<le> length q - 1" .
  ultimately show ?thesis by (cases q) simp_all
qed

lemma knight_distance_delta:
  assumes s: "on_board s" and t: "on_board t"
  shows "knight_distance (coords s) (coords t) = delta s t"
  unfolding knight_distance_def
proof (rule Least_equality)
  from bfs_shortest[OF s t, of createVertices]
  show "\<exists>q. board_path q (coords s) (coords t) \<and> length q = Suc (delta s t)" by blast
next
  fix n
  assume "\<exists>q. board_path q (coords s) (coords t) \<and> length q = Suc n"
  then obtain q where "board_path q (coords s) (coords t)" "length q = Suc n" by blast
  with board_path_delta[of q s t] show "delta s t \<le> n" by simp
qed

lemma reach_prepend:
  "reach u n s \<Longrightarrow> u \<in> set (findAdjacents v) \<Longrightarrow> reach v (Suc n) s"
proof (induction rule: reach.induct)
  case reach_0
  from reach_Suc[OF reach.reach_0 this] show ?case .
next
  case (reach_Suc n x w)
  from reach.reach_Suc[OF reach_Suc.IH[OF reach_Suc.prems] reach_Suc.hyps(2)] show ?case .
qed

lemma reach_on_board: "reach s n v \<Longrightarrow> on_board s \<Longrightarrow> on_board v"
  by (induction rule: reach.induct) (auto dest: findAdjacents_on_board)

lemma reach_sym: "reach s n t \<Longrightarrow> on_board s \<Longrightarrow> reach t n s"
proof (induction rule: reach.induct)
  case reach_0
  show ?case by (rule reach.reach_0)
next
  case (reach_Suc n u v)
  have "on_board u" using reach_Suc.hyps(1) reach_Suc.prems by (rule reach_on_board)
  then have "u \<in> set (findAdjacents v)" using reach_Suc.hyps(2) by (rule findAdjacents_sym)
  with reach_Suc.IH[OF reach_Suc.prems] show ?case by (rule reach_prepend)
qed

lemma delta_sym:
  assumes s: "on_board s" and t: "on_board t"
  shows "delta s t = delta t s"
proof -
  from bfs_shortest[OF s t, of createVertices] obtain p where
    "board_path p (coords s) (coords t)" by blast
  then have st: "reach s (length p - 1) t" by (rule board_path_reach)
  have r1: "reach s (delta s t) t" using st by (rule reach_delta)
  have r2: "reach t (delta t s) s" using reach_sym[OF st s] by (rule reach_delta)
  from delta_le[OF reach_sym[OF r1 s]] delta_le[OF reach_sym[OF r2 t]]
  show ?thesis by simp
qed

subsection \<open>The edge lists after construction\<close>

lemma edgeExists_iff: "edgeExists g vertex1 vertex2 \<longleftrightarrow> vertex1 \<in> set (edges g vertex2)"
  by (simp add: edgeExists_def list_ex_iff vertex_eq_iff Let_def eq_commute)

lemma edges_createEdge:
  "v1 \<noteq> v2 \<Longrightarrow> edges (createEdge g v1 v2) =
     (edges g)(v1 := edges g v1 @ [v2], v2 := edges g v2 @ [v1])"
  by (simp add: createEdge_def Let_def)

lemma findAdjacents_irrefl: "v \<notin> set (findAdjacents v)"
  by (simp add: set_findAdjacents knight_offset_def)

lemma edges_inv_createEdge:
  assumes inv: "edges_inv g" and v: "on_board v" and a: "a \<in> set (findAdjacents v)"
    and new: "v \<notin> set (edges g a)"
  shows "edges_inv (createEdge g v a)"
proof -
  from a have ne: "v \<noteq> a" using findAdjacents_irrefl by blast
  from findAdjacents_sym[OF v a] have va: "v \<in> set (findAdjacents a)" .
  from inv new have new': "a \<notin> set (edges g v)" unfolding edges_inv_def by blast
  show ?thesis
    unfolding edges_inv_def edges_createEdge[OF ne]
    using inv new new' ne a va unfolding edges_inv_def by (auto simp: fun_upd_apply)
qed

lemma connectAdjacents_fold:
  assumes "edges_inv g" and "on_board v" and "set as \<subseteq> set (findAdjacents v)"
  shows "edges_inv (fold (\<lambda>adjacent g'. if \<not> edgeExists g' v adjacent
                          then createEdge g' v adjacent else g') as g)
       \<and> (\<forall>a. set (edges g a) \<subseteq> set (edges (fold (\<lambda>adjacent g'. if \<not> edgeExists g' v adjacent
                          then createEdge g' v adjacent else g') as g) a))
       \<and> set as \<subseteq> set (edges (fold (\<lambda>adjacent g'. if \<not> edgeExists g' v adjacent
                          then createEdge g' v adjacent else g') as g) v)"
  using assms
proof (induction as arbitrary: g)
  case Nil
  then show ?case by simp
next
  case (Cons a as)
  let ?step = "\<lambda>adjacent g'. if \<not> edgeExists g' v adjacent then createEdge g' v adjacent else g'"
  let ?g1 = "?step a g"
  from Cons.prems have a: "a \<in> set (findAdjacents v)" and as: "set as \<subseteq> set (findAdjacents v)"
    by simp_all
  from a have ne: "v \<noteq> a" using findAdjacents_irrefl by blast
  have inv1: "edges_inv ?g1"
    using edges_inv_createEdge[OF Cons.prems(1,2) a] Cons.prems(1) by (simp add: edgeExists_iff)
  have mono1: "set (edges g x) \<subseteq> set (edges ?g1 x)" for x
    by (auto simp: edges_createEdge[OF ne])
  have in1: "a \<in> set (edges ?g1 v)"
    using Cons.prems(1) ne unfolding edges_inv_def
    by (auto simp: edgeExists_iff edges_createEdge[OF ne])
  from Cons.IH[OF inv1 Cons.prems(2) as]
  have IH: "edges_inv (fold ?step as ?g1)"
    "\<And>x. set (edges ?g1 x) \<subseteq> set (edges (fold ?step as ?g1) x)"
    "set as \<subseteq> set (edges (fold ?step as ?g1) v)" by blast+
  have "fold ?step (a # as) g = fold ?step as ?g1" by simp
  moreover have "set (edges g x) \<subseteq> set (edges (fold ?step as ?g1) x)" for x
    using mono1[of x] IH(2)[of x] by blast
  moreover have "set (a # as) \<subseteq> set (edges (fold ?step as ?g1) v)"
    using in1 IH(2)[of v] IH(3) by auto
  ultimately show ?case using IH(1) by simp
qed

lemma connectAdjacents_inv:
  assumes "edges_inv g" and "on_board v"
  shows "edges_inv (connectAdjacents g v)"
    and "set (edges g a) \<subseteq> set (edges (connectAdjacents g v) a)"
    and "set (findAdjacents v) \<subseteq> set (edges (connectAdjacents g v) v)"
  using connectAdjacents_fold[OF assms, of "findAdjacents v"]
  unfolding connectAdjacents_def by simp_all

lemma connect_list:
  assumes "edges_inv g" and "\<forall>v\<in>set vs. on_board v"
  shows "edges_inv (fold (\<lambda>v g'. connectAdjacents g' v) vs g)
       \<and> (\<forall>a. set (edges g a) \<subseteq> set (edges (fold (\<lambda>v g'. connectAdjacents g' v) vs g) a))
       \<and> (\<forall>v\<in>set vs. set (findAdjacents v)
               \<subseteq> set (edges (fold (\<lambda>v g'. connectAdjacents g' v) vs g) v))"
  using assms
proof (induction vs arbitrary: g)
  case Nil
  then show ?case by simp
next
  case (Cons v vs)
  let ?g1 = "connectAdjacents g v"
  let ?f = "\<lambda>v g'. connectAdjacents g' v"
  from Cons.prems have v: "on_board v" and vs: "\<forall>v\<in>set vs. on_board v" by simp_all
  note c = connectAdjacents_inv[OF Cons.prems(1) v]
  from Cons.IH[OF c(1) vs]
  have IH: "edges_inv (fold ?f vs ?g1)"
    "\<And>a. set (edges ?g1 a) \<subseteq> set (edges (fold ?f vs ?g1) a)"
    "\<And>w. w \<in> set vs \<Longrightarrow> set (findAdjacents w) \<subseteq> set (edges (fold ?f vs ?g1) w)"
    by blast+
  have "set (edges g a) \<subseteq> set (edges (fold ?f vs ?g1) a)" for a
    using c(2)[of a] IH(2)[of a] by blast
  moreover have "set (findAdjacents w) \<subseteq> set (edges (fold ?f vs ?g1) w)" if "w \<in> set (v # vs)" for w
    using that c(3) IH(2)[of v] IH(3)[of w] by auto
  ultimately show ?case using IH(1) by simp
qed

lemma nested_fold_flat:
  "fold (\<lambda>r g'. fold (\<lambda>c g''. connectAdjacents g'' (board r c)) cs g') rs g
     = fold (\<lambda>v g'. connectAdjacents g' v) (concat (map (\<lambda>r. map (\<lambda>c. board r c) cs) rs)) g"
  by (induction rs arbitrary: g) (simp_all add: fold_map comp_def)

lemma connectAllAdjacents_flat:
  "connectAllAdjacents g = fold (\<lambda>v g'. connectAdjacents g' v) squares g"
  unfolding connectAllAdjacents_def squares_def by (rule nested_fold_flat)

lemma set_squares: "set squares = {v. on_board v}"
proof -
  have "set squares = (\<lambda>(r, c). GraphVertex r c) ` ({0..7} \<times> {0..7})"
    unfolding squares_def boardSize_def board_def by (auto simp: image_iff)
  then show ?thesis by (simp add: on_board_set_eq)
qed

lemma edges_inv_createVertices: "edges_inv createVertices"
  by (simp add: edges_inv_def createVertices_def)

lemma edges_inv_newGraph: "edges_inv newGraph"
  and newGraph_complete: "on_board v \<Longrightarrow> set (findAdjacents v) \<subseteq> set (edges newGraph v)"
proof -
  have b: "\<forall>v\<in>set squares. on_board v" by (simp add: set_squares)
  from connect_list[OF edges_inv_createVertices b]
  show "edges_inv newGraph" "on_board v \<Longrightarrow> set (findAdjacents v) \<subseteq> set (edges newGraph v)"
    unfolding newGraph_def connectAllAdjacents_flat by (simp_all add: set_squares)
qed

lemma newGraph_edges_set: "set (edges newGraph v) = set (findAdjacents v) \<inter> {w. on_board v}"
proof (cases "on_board v")
  case True
  with newGraph_complete[OF True] edges_inv_newGraph show ?thesis
    unfolding edges_inv_def by auto
next
  case False
  have "set (edges newGraph v) = {}"
  proof (rule ccontr)
    assume "set (edges newGraph v) \<noteq> {}"
    then obtain w where "w \<in> set (edges newGraph v)"
      by (cases "edges newGraph v") auto
    with edges_inv_newGraph have "v \<in> set (findAdjacents w)"
      unfolding edges_inv_def by blast
    with False show False using findAdjacents_on_board by blast
  qed
  with False show ?thesis by simp
qed

lemma distinct_findAdjacents: "distinct (findAdjacents v)"
proof -
  have "inj_on (\<lambda>(r, c). board r c) A" for A
    by (rule inj_onI) (auto simp: board_def)
  then show ?thesis
    unfolding findAdjacents_def Let_def
    by (intro iffD2[OF distinct_map] conjI distinct_filter) simp_all
qed

lemma length_edges_newGraph:
  assumes "on_board v"
  shows "length (edges newGraph v) = length (findAdjacents v)"
proof -
  have "distinct (edges newGraph v)" using edges_inv_newGraph unfolding edges_inv_def by blast
  then have "length (edges newGraph v) = card (set (edges newGraph v))"
    by (simp add: distinct_card)
  also have "\<dots> = card (set (findAdjacents v))" using assms by (simp add: newGraph_edges_set)
  also have "\<dots> = length (findAdjacents v)" by (simp add: distinct_card distinct_findAdjacents)
  finally show ?thesis .
qed

lemma length_findAdjacents_le: "length (findAdjacents v) \<le> 8"
proof -
  have "length (filter P [a, b, c, d, e, f, g, h]) \<le> 8" for P :: "int \<times> int \<Rightarrow> bool" and a b c d e f g h
    using length_filter_le[of P "[a, b, c, d, e, f, g, h]"] by simp
  then show ?thesis unfolding findAdjacents_def Let_def by simp
qed

lemma length_findAdjacents_table:
  "list_all (\<lambda>r. list_all (\<lambda>c. 2 \<le> length (findAdjacents (GraphVertex r c))) [0..7]) [0..7]"
  "list_all (\<lambda>r. list_all (\<lambda>c. length (findAdjacents (GraphVertex r c)) = 8) [2..5]) [2..5]"
  "length (findAdjacents (GraphVertex 0 0)) = 2"
  by code_simp+

lemma upto_0_7: "r \<in> set [0..7] \<longleftrightarrow> 0 \<le> r \<and> r \<le> (7::int)"
  by simp

lemma length_findAdjacents_ge:
  assumes "on_board v"
  shows "2 \<le> length (findAdjacents v)"
proof -
  obtain r c where v: "v = GraphVertex r c" by (cases v)
  from assms have "r \<in> set [0..7]" "c \<in> set [0..7]"
    unfolding v on_board_def boardSize_def set_upto by simp_all
  with length_findAdjacents_table(1) show ?thesis
    unfolding v list_all_iff by blast
qed

lemma length_findAdjacents_inner:
  assumes "2 \<le> r" "r \<le> 5" "2 \<le> c" "c \<le> 5"
  shows "length (findAdjacents (GraphVertex r c)) = 8"
proof -
  from assms have "r \<in> set [2..5]" "c \<in> set [2..5]" unfolding set_upto by simp_all
  with length_findAdjacents_table(2) show ?thesis
    unfolding list_all_iff by blast
qed

lemma on_board_simps:
  "on_board (GraphVertex r c) \<longleftrightarrow> 0 \<le> r \<and> r < 8 \<and> 0 \<le> c \<and> c < 8"
  by (simp add: on_board_def boardSize_def)

subsection \<open>Concrete runs\<close>

lemma bfs_corner_run:
  "fst (knightMovesBFS g (GraphVertex 0 0) (GraphVertex 3 3)) = Some (Inr (Some [(0, 0), (1, 2), (3, 3)]))"
  by (simp add: knightMovesBFS_def findAdjacents_def boardSize_def board_def isVertexInArray_def
        reconstructPath_def reconstructLoop.simps)


subsection \<open>Vertices off the board\<close>



section \<open>Properties\<close>

text \<open>
  C1. For start and goal on the board, \<^verbatim>\<open>knightMovesBFS\<close> returns a path of the knight on
  the board from start to goal whose number of moves is the graph distance between the
  two squares: no path on the board from start to goal is shorter.
\<close>

theorem bfs_path_shortest:
  assumes "on_board start" and "on_board goal"
  shows "\<exists>p. fst (knightMovesBFS g start goal) = Some (Inr (Some p))
           \<and> board_path p (coords start) (coords goal)
           \<and> length p = Suc (knight_distance (coords start) (coords goal))
           \<and> (\<forall>q. board_path q (coords start) (coords goal) \<longrightarrow> length p \<le> length q)"
proof -
  from bfs_shortest[OF assms, of g] obtain p where
    p: "fst (knightMovesBFS g start goal) = Some (Inr (Some p))"
       "board_path p (coords start) (coords goal)" "length p = Suc (delta start goal)" by blast
  have "length p \<le> length q" if "board_path q (coords start) (coords goal)" for q
    using board_path_delta[OF that] p(3) by simp
  with p knight_distance_delta[OF assms] show ?thesis by auto
qed

theorem bfs_path_shortest_witness:
  "on_board (GraphVertex 0 0) \<and> on_board (GraphVertex 7 7)
   \<and> (\<exists>p. fst (knightMovesBFS newGraph (GraphVertex 0 0) (GraphVertex 7 7)) = Some (Inr (Some p))
           \<and> board_path p (0, 0) (7, 7)
           \<and> length p = Suc (knight_distance (0, 0) (7, 7))
           \<and> (\<forall>q. board_path q (0, 0) (7, 7) \<longrightarrow> length p \<le> length q))"
proof -
  have a: "on_board (GraphVertex 0 0)" and b: "on_board (GraphVertex 7 7)"
    by (simp_all add: on_board_def boardSize_def)
  from bfs_path_shortest[OF a b, of newGraph] a b show ?thesis by simp
qed

text \<open>
  C2. For start and goal on the board, \<^verbatim>\<open>knightMovesBFS\<close> and \<^verbatim>\<open>knightMovesDFS\<close> each return a
  path; its first coordinate is the start's, its last is the goal's, and every
  consecutive pair of coordinates differs by a knight-move offset \<open>(\<plusminus>1, \<plusminus>2)\<close> or
  \<open>(\<plusminus>2, \<plusminus>1)\<close>. This holds in every state of the \<^verbatim>\<open>previous\<close> fields.
\<close>

theorem search_path_valid:
  assumes "on_board start" and "on_board goal"
  shows "(\<exists>p. fst (knightMovesBFS g start goal) = Some (Inr (Some p))
             \<and> hd p = coords start \<and> last p = coords goal \<and> knight_walk p)
       \<and> (\<exists>p. fst (knightMovesDFS g start goal) = Some (Inr (Some p))
             \<and> hd p = coords start \<and> last p = coords goal \<and> knight_walk p)"
  using found_path_valid[OF bfs_post assms] found_path_valid[OF dfs_post assms] by blast

theorem search_path_valid_witness:
  "on_board (GraphVertex 0 0) \<and> on_board (GraphVertex 7 7)
   \<and> (\<exists>p. fst (knightMovesBFS newGraph (GraphVertex 0 0) (GraphVertex 7 7)) = Some (Inr (Some p))
             \<and> hd p = (0, 0) \<and> last p = (7, 7) \<and> knight_walk p)
   \<and> (\<exists>p. fst (knightMovesDFS newGraph (GraphVertex 0 0) (GraphVertex 7 7)) = Some (Inr (Some p))
             \<and> hd p = (0, 0) \<and> last p = (7, 7) \<and> knight_walk p)"
proof -
  have a: "on_board (GraphVertex 0 0)" and b: "on_board (GraphVertex 7 7)"
    by (simp_all add: on_board_def boardSize_def)
  from search_path_valid[OF a b, of newGraph] a b show ?thesis by simp
qed

text \<open>
  C3. For every square \<open>X\<close>, both \<^verbatim>\<open>knightMovesBFS(X, X)\<close> and \<^verbatim>\<open>knightMovesDFS(X, X)\<close>
  return the single-element path \<^verbatim>\<open>[[X.row, X.column]]\<close>, whatever the state of the graph.
\<close>

theorem search_same_square:
  "fst (knightMovesBFS g X X) = Some (Inr (Some [(row X, column X)]))
   \<and> fst (knightMovesDFS g X X) = Some (Inr (Some [(row X, column X)]))"
  by (simp add: knightMovesBFS_def knightMovesDFS_def dfsLoop.simps [of _ _ _ "[X]"]
        reconstructPath_def reconstructLoop.simps)

text \<open>
  C4, as the specification states it, fails: from \<open>(0, 0)\<close> to \<open>(3, 3)\<close> the path
  returned by \<^verbatim>\<open>knightMovesBFS\<close> has three coordinates, so its number of moves is not 4.
\<close>

theorem bfs_0_0_to_3_3_not_4_moves:
  "fst (knightMovesBFS newGraph (GraphVertex 0 0) (GraphVertex 3 3))
     = Some (Inr (Some [(0, 0), (1, 2), (3, 3)]))
   \<and> int (length [(0, 0), (1, 2), (3, 3) :: int \<times> int]) - 1 \<noteq> 4"
  by (simp add: bfs_corner_run)

text \<open>
  C4, amended. On the 8 by 8 board with start \<open>(0, 0)\<close> and goal \<open>(3, 3)\<close>,
  \<^verbatim>\<open>knightMovesBFS\<close> returns the path \<^verbatim>\<open>[[0,0],[1,2],[3,3]]\<close>, whose number of moves is 2,
  the knight distance between the two squares.
\<close>

theorem bfs_0_0_to_3_3_two_moves:
  "fst (knightMovesBFS g (GraphVertex 0 0) (GraphVertex 3 3))
     = Some (Inr (Some [(0, 0), (1, 2), (3, 3)]))
   \<and> knight_distance (0, 0) (3, 3) = 2"
proof -
  have a: "on_board (GraphVertex 0 0)" and b: "on_board (GraphVertex 3 3)"
    by (simp_all add: on_board_simps)
  from bfs_shortest[OF a b, of g] have "delta (GraphVertex 0 0) (GraphVertex 3 3) = 2"
    by (simp add: bfs_corner_run)
  with knight_distance_delta[OF a b] bfs_corner_run[of g] show ?thesis by simp
qed

theorem bfs_0_0_to_3_3_two_moves_witness:
  "fst (knightMovesBFS newGraph (GraphVertex 0 0) (GraphVertex 3 3))
     = Some (Inr (Some [(0, 0), (1, 2), (3, 3)]))
   \<and> knight_distance (0, 0) (3, 3) = 2"
  by (rule bfs_0_0_to_3_3_two_moves)

text \<open>
  C5. After construction the edge lists are symmetric (\<open>A\<close> is in the edge list of
  \<open>B\<close> exactly when \<open>B\<close> is in the edge list of \<open>A\<close>) and no vertex is in its own edge
  list.
\<close>

theorem edges_symmetric_irreflexive:
  "(A \<in> set (edges newGraph B) \<longleftrightarrow> B \<in> set (edges newGraph A))
   \<and> A \<notin> set (edges newGraph A)"
  using edges_inv_newGraph findAdjacents_irrefl unfolding edges_inv_def by blast

theorem edges_symmetric_irreflexive_witness:
  "GraphVertex 0 0 \<in> set (edges newGraph (GraphVertex 1 2))
   \<and> GraphVertex 1 2 \<in> set (edges newGraph (GraphVertex 0 0))
   \<and> GraphVertex 0 0 \<notin> set (edges newGraph (GraphVertex 0 0))"
proof -
  have "GraphVertex 1 2 \<in> set (edges newGraph (GraphVertex 0 0))"
    by (simp add: newGraph_edges_set set_findAdjacents on_board_simps knight_offset_def)
  with edges_symmetric_irreflexive[of "GraphVertex 0 0" "GraphVertex 1 2"]
    edges_symmetric_irreflexive[of "GraphVertex 0 0" "GraphVertex 0 0"]
  show ?thesis by blast
qed

text \<open>
  C6. After construction the edge list of every square of the board has between 2 and 8
  entries; the corner \<open>(0, 0)\<close> has exactly 2, and a square whose row and column are both
  in \<open>[2, 5]\<close> has exactly 8.
\<close>

theorem edge_count_bounds:
  "(on_board v \<longrightarrow> 2 \<le> length (edges newGraph v) \<and> length (edges newGraph v) \<le> 8)
   \<and> length (edges newGraph (GraphVertex 0 0)) = 2
   \<and> (2 \<le> r \<and> r \<le> 5 \<and> 2 \<le> c \<and> c \<le> 5 \<longrightarrow> length (edges newGraph (GraphVertex r c)) = 8)"
proof (intro conjI impI)
  assume v: "on_board v"
  show "2 \<le> length (edges newGraph v)"
    using length_findAdjacents_ge[OF v] by (simp add: length_edges_newGraph[OF v])
  show "length (edges newGraph v) \<le> 8"
    using length_findAdjacents_le[of v] by (simp add: length_edges_newGraph[OF v])
next
  have "on_board (GraphVertex 0 0)" by (simp add: on_board_simps)
  from length_edges_newGraph[OF this] length_findAdjacents_table(3)
  show "length (edges newGraph (GraphVertex 0 0)) = 2" by simp
next
  assume a: "2 \<le> r \<and> r \<le> 5 \<and> 2 \<le> c \<and> c \<le> 5"
  then have "on_board (GraphVertex r c)" by (simp add: on_board_simps)
  from length_edges_newGraph[OF this] length_findAdjacents_inner[of r c] a
  show "length (edges newGraph (GraphVertex r c)) = 8" by simp
qed

theorem edge_count_bounds_witness:
  "on_board (GraphVertex 0 3)
   \<and> 2 \<le> length (edges newGraph (GraphVertex 0 3)) \<and> length (edges newGraph (GraphVertex 0 3)) \<le> 8
   \<and> length (edges newGraph (GraphVertex 0 0)) = 2
   \<and> length (edges newGraph (GraphVertex 2 5)) = 8"
  using edge_count_bounds[of "GraphVertex 0 3" 2 5] by (simp add: on_board_simps)




text \<open>
  C8. For start and goal on the board, \<^verbatim>\<open>knightMovesBFS(start, goal)\<close> and
  \<^verbatim>\<open>knightMovesBFS(goal, start)\<close> return paths of the same length.
\<close>

theorem bfs_round_trip:
  assumes "on_board start" and "on_board goal"
  shows "\<exists>p q. fst (knightMovesBFS g start goal) = Some (Inr (Some p))
           \<and> fst (knightMovesBFS g' goal start) = Some (Inr (Some q))
           \<and> length p = length q"
  using bfs_shortest[OF assms, of g] bfs_shortest[OF assms(2,1), of g'] delta_sym[OF assms]
  by auto

theorem bfs_round_trip_witness:
  "on_board (GraphVertex 0 0) \<and> on_board (GraphVertex 3 3)
   \<and> (\<exists>p q. fst (knightMovesBFS newGraph (GraphVertex 0 0) (GraphVertex 3 3)) = Some (Inr (Some p))
           \<and> fst (knightMovesBFS newGraph (GraphVertex 3 3) (GraphVertex 0 0)) = Some (Inr (Some q))
           \<and> length p = length q)"
proof -
  have a: "on_board (GraphVertex 0 0)" and b: "on_board (GraphVertex 3 3)"
    by (simp_all add: on_board_def boardSize_def)
  from bfs_round_trip[OF a b, of newGraph newGraph] a b show ?thesis by simp
qed

text \<open>
  C9. For start and goal on the board, both searches terminate (path reconstruction
  included), and the loop that removes a vertex from the frontier runs at most 64 times:
  every iteration appends the removed vertex to \<^verbatim>\<open>explored\<close>, which at the exit has no
  duplicate and at most 64 entries.
\<close>

theorem search_terminates_within_64:
  assumes "on_board start" and "on_board goal"
  shows "(\<exists>res. fst (knightMovesBFS g start goal) = Some res)
       \<and> distinct (fst (snd (knightMovesBFS g start goal)))
       \<and> length (fst (snd (knightMovesBFS g start goal))) \<le> 64
       \<and> (\<exists>res. fst (knightMovesDFS g start goal) = Some res)
       \<and> distinct (fst (snd (knightMovesDFS g start goal)))
       \<and> length (fst (snd (knightMovesDFS g start goal))) \<le> 64"
  using explored_bound[OF bfs_post assms] explored_bound[OF dfs_post assms] by blast

theorem search_terminates_within_64_witness:
  "on_board (GraphVertex 0 0) \<and> on_board (GraphVertex 0 1)
   \<and> (\<exists>res. fst (knightMovesBFS newGraph (GraphVertex 0 0) (GraphVertex 0 1)) = Some res)
   \<and> distinct (fst (snd (knightMovesBFS newGraph (GraphVertex 0 0) (GraphVertex 0 1))))
   \<and> length (fst (snd (knightMovesBFS newGraph (GraphVertex 0 0) (GraphVertex 0 1)))) \<le> 64
   \<and> (\<exists>res. fst (knightMovesDFS newGraph (GraphVertex 0 0) (GraphVertex 0 1)) = Some res)
   \<and> distinct (fst (snd (knightMovesDFS newGraph (GraphVertex 0 0) (GraphVertex 0 1))))
   \<and> length (fst (snd (knightMovesDFS newGraph (GraphVertex 0 0) (GraphVertex 0 1)))) \<le> 64"
proof -
  have a: "on_board (GraphVertex 0 0)" and b: "on_board (GraphVertex 0 1)"
    by (simp_all add: on_board_def boardSize_def)
  from search_terminates_within_64[OF a b, of newGraph] a b show ?thesis by simp
qed

text \<open>
  C10. Whatever searches ran before on the same graph, \<^verbatim>\<open>knightMovesBFS\<close> and
  \<^verbatim>\<open>knightMovesDFS\<close> return what they return on a freshly constructed graph: the
  \<^verbatim>\<open>previous\<close> links left by earlier searches do not change the outcome of a later one.
\<close>

theorem search_independent_of_prior_calls:
  "fst (knightMovesBFS (run_calls newGraph calls) start goal) = fst (knightMovesBFS newGraph start goal)
   \<and> fst (knightMovesDFS (run_calls newGraph calls) start goal)
       = fst (knightMovesDFS newGraph start goal)"
  using bfs_state_independent dfs_state_independent by blast

theorem search_independent_of_prior_calls_witness:
  "fst (knightMovesBFS
         (run_calls newGraph [CallBFS (GraphVertex 0 0) (GraphVertex 3 3),
                              CallDFS (GraphVertex 3 3) (GraphVertex 0 0)])
         (GraphVertex 3 3) (GraphVertex 0 0))
     = fst (knightMovesBFS newGraph (GraphVertex 3 3) (GraphVertex 0 0))
   \<and> fst (knightMovesDFS
         (run_calls newGraph [CallBFS (GraphVertex 0 0) (GraphVertex 3 3),
                              CallDFS (GraphVertex 3 3) (GraphVertex 0 0)])
         (GraphVertex 3 3) (GraphVertex 0 0))
     = fst (knightMovesDFS newGraph (GraphVertex 3 3) (GraphVertex 0 0))"
  by (rule search_independent_of_prior_calls)

end
